theory Spec2Isabelle
  imports Main
begin

section \<open>Strings and the library functions the scraper calls\<close>

text \<open>
  The program is a single Python module, \<^verbatim>\<open>main.py\<close>. Its pure functions work on
  Python strings; here a string is a \<^typ>\<open>string\<close>, a list of characters with code points
  below 256, and the functions of the standard library that the module calls
  (\<^verbatim>\<open>str.lower\<close>, \<^verbatim>\<open>os.path.basename\<close>, \<^verbatim>\<open>os.path.splitext\<close>, \<^verbatim>\<open>re.sub\<close>,
  \<^verbatim>\<open>urllib.parse.urlparse\<close>) are written out as CPython 3.11 on a POSIX system defines
  them on that range of characters.
\<close>

datatype exn = ValueError | WebDriverException

definition code :: "char \<Rightarrow> nat" where
  "code c = of_char c"

definition is_lower_az :: "char \<Rightarrow> bool" where
  "is_lower_az c = (97 \<le> code c \<and> code c \<le> 122)"

definition is_upper_az :: "char \<Rightarrow> bool" where
  "is_upper_az c = (65 \<le> code c \<and> code c \<le> 90)"

definition is_digit :: "char \<Rightarrow> bool" where
  "is_digit c = (48 \<le> code c \<and> code c \<le> 57)"

text \<open>\<^verbatim>\<open>str.lower\<close>: the letters A-Z and the Latin-1 capitals (192-222 except the
  multiplication sign 215) move up by 32; every other character stays.\<close>

definition lower_char :: "char \<Rightarrow> char" where
  "lower_char c =
     (if is_upper_az c \<or> (192 \<le> code c \<and> code c \<le> 222 \<and> code c \<noteq> 215)
      then char_of (code c + 32) else c)"

definition lower :: "string \<Rightarrow> string" where
  "lower s = map lower_char s"

text \<open>\<^verbatim>\<open>s.endswith(suf)\<close>.\<close>

definition endswith :: "string \<Rightarrow> string \<Rightarrow> bool" where
  "endswith s suf = (length suf \<le> length s \<and> drop (length s - length suf) s = suf)"

text \<open>The part of \<open>s\<close> after the last occurrence of \<open>c\<close> (all of \<open>s\<close> when \<open>c\<close> does
  not occur), and the part before it.\<close>

definition after_last :: "char \<Rightarrow> string \<Rightarrow> string" where
  "after_last c s = rev (takeWhile (\<lambda>x. x \<noteq> c) (rev s))"

definition before_last :: "char \<Rightarrow> string \<Rightarrow> string" where
  "before_last c s = rev (tl (dropWhile (\<lambda>x. x \<noteq> c) (rev s)))"

text \<open>\<^verbatim>\<open>posixpath.basename(p)\<close> is \<^verbatim>\<open>p[p.rfind('/') + 1:]\<close>.\<close>

definition basename :: "string \<Rightarrow> string" where
  "basename p = after_last CHR ''/'' p"

text \<open>\<^verbatim>\<open>posixpath.splitext(p)[1]\<close>: the extension starts at the last dot of the last path
  segment, provided some character of that segment before the dot is not a dot.\<close>

definition splitext_ext :: "string \<Rightarrow> string" where
  "splitext_ext p =
     (let seg = basename p in
      if CHR ''.'' \<in> set seg \<and> list_ex (\<lambda>c. c \<noteq> CHR ''.'') (before_last CHR ''.'' seg)
      then CHR ''.'' # after_last CHR ''.'' seg
      else [])"

subsection \<open>urllib.parse.urlparse\<close>

record parse_result =
  scheme :: string
  netloc :: string
  path :: string
  params :: string
  query :: string
  fragment :: string

definition scheme_char :: "char \<Rightarrow> bool" where
  "scheme_char c = (is_lower_az c \<or> is_upper_az c \<or> is_digit c \<or> c \<in> set ''+-.'')"

definition uses_params :: "string list" where
  "uses_params = ['''', ''ftp'', ''hdl'', ''prospero'', ''http'', ''imap'', ''https'', ''shttp'',
     ''rtsp'', ''rtsps'', ''rtspu'', ''sip'', ''sips'', ''mms'', ''sftp'', ''tel'']"

text \<open>\<^verbatim>\<open>url.lstrip(_WHATWG_C0_CONTROL_OR_SPACE)\<close> drops the leading characters with code
  point at most 32; then every tab, carriage return and newline is removed.\<close>

definition lstrip_c0 :: "string \<Rightarrow> string" where
  "lstrip_c0 s = dropWhile (\<lambda>c. code c \<le> 32) s"

definition remove_unsafe :: "string \<Rightarrow> string" where
  "remove_unsafe s = filter (\<lambda>c. code c \<noteq> 9 \<and> code c \<noteq> 13 \<and> code c \<noteq> 10) s"

text \<open>The scheme: with \<open>i\<close> the index of the first colon, \<open>i > 0\<close>, the first character an
  ASCII letter and all of \<^verbatim>\<open>url[:i]\<close> scheme characters, the scheme is \<^verbatim>\<open>url[:i].lower()\<close>
  and the URL continues after the colon.\<close>

definition split_scheme :: "string \<Rightarrow> string \<times> string" where
  "split_scheme url =
     (let pre = takeWhile (\<lambda>c. c \<noteq> CHR '':'') url in
      if CHR '':'' \<in> set url \<and> pre \<noteq> [] \<and> (is_lower_az (hd pre) \<or> is_upper_az (hd pre))
         \<and> list_all scheme_char pre
      then (lower pre, tl (dropWhile (\<lambda>c. c \<noteq> CHR '':'') url))
      else ([], url))"

definition is_delim :: "char \<Rightarrow> bool" where
  "is_delim c = (c = CHR ''/'' \<or> c = CHR ''?'' \<or> c = CHR ''#'')"

text \<open>\<^verbatim>\<open>_splitnetloc(url, 2)\<close>: the network location runs from index 2 to the first of
  \<^verbatim>\<open>/ ? #\<close>.\<close>

definition splitnetloc :: "string \<Rightarrow> string \<times> string" where
  "splitnetloc url =
     (takeWhile (\<lambda>c. \<not> is_delim c) (drop 2 url), dropWhile (\<lambda>c. \<not> is_delim c) (drop 2 url))"

text \<open>\<^verbatim>\<open>netloc.partition('[')[2].partition(']')[0]\<close>.\<close>

definition bracketed_host :: "string \<Rightarrow> string" where
  "bracketed_host nl =
     takeWhile (\<lambda>c. c \<noteq> CHR '']'') (tl (dropWhile (\<lambda>c. c \<noteq> CHR ''['') nl))"

text \<open>\<^verbatim>\<open>url.split(c, 1)\<close> when \<open>c\<close> occurs in \<open>url\<close>, and \<open>(url, '')\<close> otherwise.\<close>

definition split_first :: "char \<Rightarrow> string \<Rightarrow> string \<times> string" where
  "split_first c url =
     (if c \<in> set url
      then (takeWhile (\<lambda>x. x \<noteq> c) url, tl (dropWhile (\<lambda>x. x \<noteq> c) url))
      else (url, []))"

text \<open>
  \<^verbatim>\<open>urlsplit\<close>. The check of a bracketed host (\<^verbatim>\<open>_check_bracketed_host\<close>, which parses
  an IPv6 or IPvFuture literal with the \<^verbatim>\<open>ipaddress\<close> module) is the parameter \<open>bh\<close>:
  \<open>bh h\<close> says that the library accepts \<open>h\<close> between brackets. The NFKC check of the
  network location (\<^verbatim>\<open>_checknetloc\<close>) never raises on characters below 256 and is left out.
\<close>

definition split_authority :: "string \<Rightarrow> string \<times> string \<times> string" where
  "split_authority url0 =
     (let url1 = remove_unsafe (lstrip_c0 url0);
          (sch, url2) = split_scheme url1;
          (nl, url3) = (if take 2 url2 = ''//'' then splitnetloc url2 else ([], url2))
      in (sch, nl, url3))"

definition urlsplit :: "(string \<Rightarrow> bool) \<Rightarrow> string \<Rightarrow> exn + parse_result" where
  "urlsplit bh url0 =
     (case split_authority url0 of
        (sch, nl, url3) \<Rightarrow>
          if (CHR ''['' \<in> set nl \<and> CHR '']'' \<notin> set nl) \<or> (CHR '']'' \<in> set nl \<and> CHR ''['' \<notin> set nl)
          then Inl ValueError
          else if CHR ''['' \<in> set nl \<and> CHR '']'' \<in> set nl \<and> \<not> bh (bracketed_host nl)
          then Inl ValueError
          else
            (let (url4, frag) = split_first CHR ''#'' url3;
                 (url5, qry) = split_first CHR ''?'' url4
             in Inr \<lparr>scheme = sch, netloc = nl, path = url5, params = [], query = qry,
                      fragment = frag\<rparr>))"

text \<open>\<^verbatim>\<open>_splitparams\<close>: the parameters start at the first semicolon of the last path
  segment.\<close>

definition splitparams :: "string \<Rightarrow> string \<times> string" where
  "splitparams url =
     (if CHR ''/'' \<in> set url
      then (let seg = after_last CHR ''/'' url in
            if CHR '';'' \<in> set seg
            then (take (length url - length seg) url @ takeWhile (\<lambda>c. c \<noteq> CHR '';'') seg,
                  tl (dropWhile (\<lambda>c. c \<noteq> CHR '';'') seg))
            else (url, []))
      else (takeWhile (\<lambda>c. c \<noteq> CHR '';'') url, tl (dropWhile (\<lambda>c. c \<noteq> CHR '';'') url)))"

definition urlparse :: "(string \<Rightarrow> bool) \<Rightarrow> string \<Rightarrow> exn + parse_result" where
  "urlparse bh url =
     (case urlsplit bh url of
        Inl e \<Rightarrow> Inl e
      | Inr r \<Rightarrow>
          if scheme r \<in> set uses_params \<and> CHR '';'' \<in> set (path r)
          then (let (p, ps) = splitparams (path r) in Inr (r\<lparr>path := p, params := ps\<rparr>))
          else Inr r)"

section \<open>Utility functions of main.py\<close>

definition get_filename :: "(string \<Rightarrow> bool) \<Rightarrow> string \<Rightarrow> exn + string" where
  "get_filename bh url =
     (case urlparse bh url of Inl e \<Rightarrow> Inl e | Inr r \<Rightarrow> Inr (basename (path r)))"

text \<open>\<^verbatim>\<open>re.sub(r"[^a-z0-9]", "_", s)\<close>.\<close>

definition replace_unsafe :: "string \<Rightarrow> string" where
  "replace_unsafe s = map (\<lambda>c. if is_lower_az c \<or> is_digit c then c else CHR ''_'') s"

text \<open>\<^verbatim>\<open>re.sub(r"_+", "_", s)\<close>: every run of underscores becomes one underscore.\<close>

fun collapse_underscores :: "string \<Rightarrow> string" where
  "collapse_underscores (a # b # cs) =
     (if a = CHR ''_'' \<and> b = CHR ''_'' then collapse_underscores (b # cs)
      else a # collapse_underscores (b # cs))"
| "collapse_underscores cs = cs"

text \<open>\<^verbatim>\<open>s.strip("_")\<close>.\<close>

definition strip_underscores :: "string \<Rightarrow> string" where
  "strip_underscores s =
     rev (dropWhile (\<lambda>c. c = CHR ''_'') (rev (dropWhile (\<lambda>c. c = CHR ''_'') s)))"

text \<open>The stem of \<^verbatim>\<open>url_to_filename\<close>: both substitutions, the strip, and the removal of a
  final \<^verbatim>\<open>_pdf\<close>.\<close>

definition safe_stem :: "string \<Rightarrow> string" where
  "safe_stem lower_name =
     (let safe = strip_underscores (collapse_underscores (replace_unsafe lower_name))
      in if endswith safe ''_pdf'' then take (length safe - 4) safe else safe)"

definition url_to_filename :: "(string \<Rightarrow> bool) \<Rightarrow> string \<Rightarrow> exn + string" where
  "url_to_filename bh raw_url =
     (case get_filename bh (lower raw_url) of
        Inl e \<Rightarrow> Inl e
      | Inr lower_name \<Rightarrow>
          (let ext0 = splitext_ext lower_name;
               safe = safe_stem lower_name;
               ext = (if ext0 = [] then ''.pdf'' else ext0)
           in Inr (if \<not> endswith safe ''.pdf'' then safe @ ext else safe)))"

text \<open>\<^verbatim>\<open>is_url_valid\<close> catches every exception of the parser and answers False.\<close>

definition is_url_valid :: "(string \<Rightarrow> bool) \<Rightarrow> string \<Rightarrow> exn + bool" where
  "is_url_valid bh url =
     (case urlparse bh url of
        Inl e \<Rightarrow> Inr False
      | Inr r \<Rightarrow> Inr (scheme r \<noteq> [] \<and> netloc r \<noteq> []))"

text \<open>\<^verbatim>\<open>remove_duplicates\<close> is \<^verbatim>\<open>list(dict.fromkeys(seq))\<close>: a dictionary keeps its keys in
  the order of their first insertion, and inserting a key again leaves it in place.\<close>

definition dict_fromkeys :: "'a list \<Rightarrow> 'a list" where
  "dict_fromkeys seq = foldl (\<lambda>keys k. if k \<in> set keys then keys else keys @ [k]) [] seq"

definition remove_duplicates :: "'a list \<Rightarrow> 'a list" where
  "remove_duplicates seq = dict_fromkeys seq"

text \<open>The bracketed-host check of Python before 3.11.4, which accepts every host.\<close>

definition any_host :: "string \<Rightarrow> bool" where
  "any_host h = True"

section \<open>The link pattern\<close>

text \<open>
  \<^verbatim>\<open>extract_pdf_urls\<close> runs \<^verbatim>\<open>findall\<close> with the pattern
  \<^verbatim>\<open>https?://[^\s'"]+/pdf/\?productID=\d+\<close>. The matcher below follows the backtracking
  search of \<^verbatim>\<open>re\<close>: at a start position it reads \<^verbatim>\<open>http\<close>, an optional \<^verbatim>\<open>s\<close> and
  \<^verbatim>\<open>://\<close>, takes the longest run of characters that are neither white space nor a quote,
  and gives characters of that run back one at a time (never the first one) until the
  rest of the pattern matches; \<^verbatim>\<open>\d+\<close> then takes every digit that follows.
\<close>

definition is_space :: "char \<Rightarrow> bool" where
  "is_space c = ((9 \<le> code c \<and> code c \<le> 13) \<or> (28 \<le> code c \<and> code c \<le> 32)
     \<or> code c = 133 \<or> code c = 160)"

definition link_char :: "char \<Rightarrow> bool" where
  "link_char c = (\<not> is_space c \<and> c \<noteq> CHR 0x27 \<and> c \<noteq> CHR 0x22)"

definition startswith :: "string \<Rightarrow> string \<Rightarrow> bool" where
  "startswith s pre = (take (length pre) s = pre)"

definition match_tail :: "string \<Rightarrow> string option" where
  "match_tail t =
     (if startswith t ''/pdf/?productID=''
      then (let ds = takeWhile is_digit (drop 16 t) in
            if ds = [] then None else Some (''/pdf/?productID='' @ ds))
      else None)"

fun backtrack :: "string \<Rightarrow> nat \<Rightarrow> string option" where
  "backtrack r 0 = None"
| "backtrack r (Suc k) =
     (case match_tail (drop (Suc k) r) of
        Some t \<Rightarrow> Some (take (Suc k) r @ t)
      | None \<Rightarrow> backtrack r k)"

definition match_here :: "string \<Rightarrow> string option" where
  "match_here s =
     (if startswith s ''http''
      then (let s1 = drop 4 s;
                (pre, s2) = (if startswith s1 ''s'' then (''https'', drop 1 s1) else (''http'', s1))
            in if startswith s2 ''://''
               then (let r = drop 3 s2 in
                     case backtrack r (length (takeWhile link_char r)) of
                       Some m \<Rightarrow> Some (pre @ ''://'' @ m)
                     | None \<Rightarrow> None)
               else None)
      else None)"

text \<open>\<^verbatim>\<open>findall\<close> scans from left to right; after a match it continues behind it. The first
  argument counts the characters of the last match still to be skipped.\<close>

fun findall_from :: "nat \<Rightarrow> string \<Rightarrow> string list" where
  "findall_from n [] = []"
| "findall_from (Suc n) (c # cs) = findall_from n cs"
| "findall_from 0 (c # cs) =
     (case match_here (c # cs) of
        Some m \<Rightarrow> m # findall_from (length m - 1) cs
      | None \<Rightarrow> findall_from 0 cs)"

section \<open>The world: files, network, browser\<close>

text \<open>
  A file is named by its directory and its name, standing for
  \<^verbatim>\<open>Path(output_dir) / filename\<close>. What the network and the browser answer is part of the
  world; everything the program prints or does to the outside is appended to a trace.
\<close>

type_synonym fpath = "string \<times> string"

datatype node = RegularFile string | Directory

datatype report =
    ErrorCreatingDirectory string
  | FileExistsSkipping fpath
  | InvalidContentType string string
  | Downloaded string fpath
  | FailedToDownload string
  | SeleniumError string
  | Scraping string
  | ErrorScraping string
  | NoPdfUrlsFound

datatype event =
    Print report
  | HttpGet string
  | OpenForWrite fpath
  | WriteChunk fpath string
  | MakeDirs string
  | BrowserStart string
  | BrowserQuit string

text \<open>The answer to a GET: the request raises, or a response arrives with its status
  code, its \<^verbatim>\<open>Content-Type\<close> header if any, the chunks of its body, and whether reading
  the body raises after those chunks.\<close>

datatype http_outcome =
    RequestFails
  | Response nat "string option" "string list" bool

text \<open>What the browser does for a URL: \<^verbatim>\<open>webdriver.Chrome\<close> raises; the session starts and
  \<^verbatim>\<open>set_page_load_timeout\<close> raises; \<^verbatim>\<open>driver.get\<close> raises or times out; reading
  \<^verbatim>\<open>driver.current_url\<close> raises; or the browser lands on a final URL.\<close>

datatype browser_outcome =
    StartFails
  | ConfigFails
  | NavigationFails
  | NavigationTimesOut
  | ReadUrlFails
  | Lands string

record world =
  dirs :: "string \<Rightarrow> bool"
  mkdir_fails :: "string \<Rightarrow> bool"
  files :: "fpath \<Rightarrow> node option"
  open_denied :: "fpath \<Rightarrow> bool"
  http :: "string \<Rightarrow> http_outcome"
  chrome :: "string \<Rightarrow> browser_outcome"
  sessions :: nat
  trace :: "event list"

definition emit :: "event \<Rightarrow> world \<Rightarrow> world" where
  "emit e w = w\<lparr>trace := trace w @ [e]\<rparr>"



definition file_exists :: "world \<Rightarrow> fpath \<Rightarrow> bool" where
  "file_exists w p = (case files w p of Some (RegularFile _) \<Rightarrow> True | _ \<Rightarrow> False)"

section \<open>Selenium for the final URL\<close>

text \<open>The session is started and configured before the \<^verbatim>\<open>try\<close>; the \<^verbatim>\<open>finally\<close> clause
  quits it on every way out of the \<^verbatim>\<open>try\<close>.\<close>

definition driver_quit :: "string \<Rightarrow> world \<Rightarrow> world" where
  "driver_quit u w = emit (BrowserQuit u) (w\<lparr>sessions := sessions w - 1\<rparr>)"

definition get_final_url :: "string \<Rightarrow> world \<Rightarrow> (exn + string) \<times> world" where
  "get_final_url input_url w =
     (case chrome w input_url of
        StartFails \<Rightarrow> (Inl WebDriverException, w)
      | outcome \<Rightarrow>
          (let w1 = emit (BrowserStart input_url) (w\<lparr>sessions := sessions w + 1\<rparr>) in
           case outcome of
             ConfigFails \<Rightarrow> (Inl WebDriverException, w1)
           | Lands final_url \<Rightarrow> (Inr final_url, driver_quit input_url w1)
           | _ \<Rightarrow> (Inr [], driver_quit input_url (emit (Print (SeleniumError input_url)) w1))))"

section \<open>PDF handling\<close>

text \<open>\<^verbatim>\<open>sub in s\<close> for strings.\<close>

fun contains :: "string \<Rightarrow> string \<Rightarrow> bool" where
  "contains [] sub = (sub = [])"
| "contains (c # cs) sub = (startswith (c # cs) sub \<or> contains cs sub)"

text \<open>\<^verbatim>\<open>Response.raise_for_status\<close> of the requests library raises for the status codes
  400 to 599.\<close>

definition raise_for_status :: "nat \<Rightarrow> bool" where
  "raise_for_status st = (400 \<le> st \<and> st < 600)"

text \<open>\<^verbatim>\<open>open(filepath, "wb")\<close> creates or truncates the file; it raises when the directory is
  missing, the name is a directory or the system refuses.\<close>

definition can_open :: "world \<Rightarrow> fpath \<Rightarrow> bool" where
  "can_open w p = (dirs w (fst p) \<and> \<not> open_denied w p \<and> files w p \<noteq> Some Directory)"

definition open_wb :: "fpath \<Rightarrow> world \<Rightarrow> world" where
  "open_wb p w = emit (OpenForWrite p) (w\<lparr>files := (files w)(p \<mapsto> RegularFile [])\<rparr>)"

definition write_chunk :: "fpath \<Rightarrow> string \<Rightarrow> world \<Rightarrow> world" where
  "write_chunk p chunk w =
     emit (WriteChunk p chunk)
       (w\<lparr>files := (files w)(p \<mapsto> RegularFile
            ((case files w p of Some (RegularFile old) \<Rightarrow> old | _ \<Rightarrow> []) @ chunk))\<rparr>)"

fun write_chunks :: "fpath \<Rightarrow> string list \<Rightarrow> world \<Rightarrow> world" where
  "write_chunks p [] w = w"
| "write_chunks p (chunk # rest) w = write_chunks p rest (write_chunk p chunk w)"

definition download_pdf :: "(string \<Rightarrow> bool) \<Rightarrow> string \<Rightarrow> string \<Rightarrow> world \<Rightarrow> (exn + bool) \<times> world" where
  "download_pdf bh final_url output_dir w =
     (case url_to_filename bh final_url of
        Inl e \<Rightarrow> (Inl e, w)
      | Inr filename \<Rightarrow>
          (let filepath = (output_dir, filename) in
           if file_exists w filepath
           then (Inr False, emit (Print (FileExistsSkipping filepath)) w)
           else
             (let w1 = emit (HttpGet final_url) w in
              case http w final_url of
                RequestFails \<Rightarrow> (Inr False, emit (Print (FailedToDownload final_url)) w1)
              | Response st ct chunks broken \<Rightarrow>
                  if raise_for_status st
                  then (Inr False, emit (Print (FailedToDownload final_url)) w1)
                  else
                    (let content_type = (case ct of None \<Rightarrow> [] | Some v \<Rightarrow> v) in
                     if \<not> (contains content_type ''application/pdf''
                            \<or> contains content_type ''text/html'')
                     then (Inr False, emit (Print (InvalidContentType final_url content_type)) w1)
                     else if \<not> can_open w1 filepath
                     then (Inr False, emit (Print (FailedToDownload final_url)) w1)
                     else
                       (let w2 = write_chunks filepath chunks (open_wb filepath w1) in
                        if broken
                        then (Inr False, emit (Print (FailedToDownload final_url)) w2)
                        else (Inr True, emit (Print (Downloaded final_url filepath)) w2))))))"

section \<open>Scraping\<close>


text \<open>\<^verbatim>\<open>extract_pdf_urls\<close> returns the matches as \<^verbatim>\<open>findall\<close> gives them, and the line it
  prints when there is none.\<close>

definition extract_pdf_urls :: "string \<Rightarrow> string list \<times> report list" where
  "extract_pdf_urls html =
     (let matches = findall_from 0 html in
      (matches, if matches = [] then [NoPdfUrlsFound] else []))"

section \<open>Main\<close>




text \<open>The characters of a sanitized stem: \<^verbatim>\<open>[a-z0-9_]\<close>.\<close>

definition stem_char :: "char \<Rightarrow> bool" where
  "stem_char c = (is_lower_az c \<or> is_digit c \<or> c = CHR ''_'')"

text \<open>The form the specification gives for a sanitized filename,
  \<^verbatim>\<open>^[a-z0-9_]+\.(ext)$\<close>: a stem of at least one such character, then a dot and the
  extension.\<close>

definition sanitized_form :: "string \<Rightarrow> bool" where
  "sanitized_form f =
     (takeWhile stem_char f \<noteq> [] \<and> startswith (dropWhile stem_char f) ''.'')"

text \<open>The part of a URL before its first \<^verbatim>\<open>?\<close> or \<^verbatim>\<open>#\<close>, and the strings that are
  empty or end with a slash.\<close>

definition seg :: "string \<Rightarrow> string" where
  "seg s = takeWhile (\<lambda>c. c \<noteq> CHR ''?'' \<and> c \<noteq> CHR ''#'') s"

definition slashed :: "string \<Rightarrow> bool" where
  "slashed x = (x = [] \<or> last x = CHR ''/'')"

section \<open>Sample worlds\<close>

text \<open>Worlds on which the model is run: the directory \<^verbatim>\<open>PDFs\<close> exists and is empty, the
  browser lands on the URL it is given, and the network answers every GET as the argument
  says. \<open>serve st ct\<close> answers with status \<open>st\<close>, content type \<open>ct\<close> and a body of two
  chunks.\<close>

definition serve :: "nat \<Rightarrow> string \<Rightarrow> string \<Rightarrow> http_outcome" where
  "serve st ct u = Response st (Some ct) [''%PDF-1.7 '', ''%%EOF''] False"

definition unreachable :: "string \<Rightarrow> http_outcome" where
  "unreachable u = RequestFails"

definition no_file :: "fpath \<Rightarrow> node option" where
  "no_file p = None"

definition stored_pdf :: "fpath \<Rightarrow> node option" where
  "stored_pdf p = (if p = (''PDFs'', ''.pdf'') then Some (RegularFile ''%PDF-1.7 %%EOF'') else None)"

definition only_pdfs :: "string \<Rightarrow> bool" where
  "only_pdfs d = (d = ''PDFs'')"

definition never :: "'a \<Rightarrow> bool" where
  "never x = False"

definition a_world :: "(fpath \<Rightarrow> node option) \<Rightarrow> (string \<Rightarrow> http_outcome) \<Rightarrow> world" where
  "a_world fs net =
     \<lparr>dirs = only_pdfs, mkdir_fails = never, files = fs, open_denied = never, http = net,
      chrome = Lands, sessions = 0, trace = []\<rparr>"


definition navigation_times_out :: "string \<Rightarrow> browser_outcome" where
  "navigation_times_out u = NavigationTimesOut"

definition config_fails :: "string \<Rightarrow> browser_outcome" where
  "config_fails u = ConfigFails"

text \<open>A page that shows the same link three times.\<close>

definition three_links :: string where
  "three_links = ''<p>https://churchdwight.com/pdf/?productID=40002569 and again '' @
     ''https://churchdwight.com/pdf/?productID=40002569 and '' @
     ''https://churchdwight.com/pdf/?productID=40002569</p>''"


section \<open>Properties of the filename sanitizer\<close>

lemma set_collapse_underscores: "set (collapse_underscores s) \<subseteq> set s"
  by (induction s rule: collapse_underscores.induct) auto

lemma set_strip_underscores: "set (strip_underscores s) \<subseteq> set s"
proof -
  have "set (dropWhile (\<lambda>c. c = CHR ''_'') (rev (dropWhile (\<lambda>c. c = CHR ''_'') s)))
        \<subseteq> set (rev (dropWhile (\<lambda>c. c = CHR ''_'') s))"
    by (auto dest: set_dropWhileD)
  also have "\<dots> \<subseteq> set s"
    by (auto dest: set_dropWhileD)
  finally show ?thesis
    by (simp add: strip_underscores_def)
qed

lemma stem_char_replace_unsafe: "c \<in> set (replace_unsafe s) \<Longrightarrow> stem_char c"
  by (auto simp: replace_unsafe_def stem_char_def)

lemma set_safe_stem:
  "set (safe_stem n) \<subseteq> set (replace_unsafe n)"
proof -
  let ?s = "strip_underscores (collapse_underscores (replace_unsafe n))"
  have "set ?s \<subseteq> set (replace_unsafe n)"
    using set_strip_underscores set_collapse_underscores by blast
  moreover have "set (take (length ?s - 4) ?s) \<subseteq> set ?s"
    by (rule set_take_subset)
  ultimately show ?thesis
    by (auto simp: safe_stem_def Let_def)
qed

lemma stem_char_safe_stem: "c \<in> set (safe_stem n) \<Longrightarrow> stem_char c"
  using set_safe_stem stem_char_replace_unsafe by blast

lemma stem_char_not_dot: "stem_char c \<Longrightarrow> c \<noteq> CHR ''.''"
  by (auto simp: stem_char_def is_lower_az_def is_digit_def code_def)

lemma no_dot_safe_stem: "CHR ''.'' \<notin> set (safe_stem n)"
  using stem_char_safe_stem stem_char_not_dot by blast

lemma endswith_set: "endswith s suf \<Longrightarrow> set suf \<subseteq> set s"
  unfolding endswith_def by (metis set_drop_subset)

lemma safe_stem_not_pdf: "\<not> endswith (safe_stem n) ''.pdf''"
proof
  assume "endswith (safe_stem n) ''.pdf''"
  then have "set ''.pdf'' \<subseteq> set (safe_stem n)" by (rule endswith_set)
  then have "CHR ''.'' \<in> set (safe_stem n)" by simp
  then show False using no_dot_safe_stem by blast
qed

lemma url_to_filename_appends:
  assumes "url_to_filename bh u = Inr f"
  shows "\<exists>name. get_filename bh (lower u) = Inr name \<and>
       f = safe_stem name @ (if splitext_ext name = [] then ''.pdf'' else splitext_ext name)"
proof (cases "get_filename bh (lower u)")
  case (Inl e)
  with assms show ?thesis by (simp add: url_to_filename_def)
next
  case (Inr name)
  with assms have "f = safe_stem name @ (if splitext_ext name = [] then ''.pdf'' else splitext_ext name)"
    unfolding url_to_filename_def Let_def using safe_stem_not_pdf [of name] by auto
  with Inr show ?thesis by blast
qed

section \<open>Lower case commutes with the URL parser\<close>

lemma code_char_of: "n < 256 \<Longrightarrow> code (char_of n) = n"
  by (simp add: code_def)

lemma code_lt_256: "code c < 256"
  by (simp add: code_def)

lemma code_inject: "code a = code b \<Longrightarrow> a = b"
  by (simp add: code_def)

lemma lower_char_changed:
  "lower_char x \<noteq> x \<Longrightarrow> code (lower_char x) = code x + 32 \<and> 65 \<le> code x"
  using code_lt_256 [of x]
  by (auto simp: lower_char_def is_upper_az_def code_char_of split: if_splits)

lemma lower_char_idem: "lower_char (lower_char x) = lower_char x"
proof (cases "lower_char x = x")
  case True
  then show ?thesis by simp
next
  case False
  then have c: "code (lower_char x) = code x + 32" "65 \<le> code x"
    using lower_char_changed by blast+
  from False have "code x \<le> 222"
    by (auto simp: lower_char_def is_upper_az_def split: if_splits)
  moreover from False have "code x \<le> 90 \<or> 192 \<le> code x"
    by (auto simp: lower_char_def is_upper_az_def split: if_splits)
  ultimately show ?thesis
    using c unfolding lower_char_def [of "lower_char x"] is_upper_az_def by auto
qed

lemma lower_char_eq_iff:
  assumes "lower_char c = c" and "code c < 97"
  shows "lower_char x = c \<longleftrightarrow> x = c"
proof (cases "lower_char x = x")
  case True
  then show ?thesis by auto
next
  case False
  then have "97 \<le> code (lower_char x)"
    using lower_char_changed [of x] by simp
  with assms False show ?thesis by auto
qed

lemma lower_fix:
  "lower_char x = CHR '':'' \<longleftrightarrow> x = CHR '':''"
  "lower_char x = CHR ''/'' \<longleftrightarrow> x = CHR ''/''"
  "lower_char x = CHR ''?'' \<longleftrightarrow> x = CHR ''?''"
  "lower_char x = CHR ''#'' \<longleftrightarrow> x = CHR ''#''"
  "lower_char x = CHR '';'' \<longleftrightarrow> x = CHR '';''"
  "lower_char x = CHR ''['' \<longleftrightarrow> x = CHR ''[''"
  "lower_char x = CHR '']'' \<longleftrightarrow> x = CHR '']''"
  "lower_char x = CHR ''.'' \<longleftrightarrow> x = CHR ''.''"
  "lower_char x = CHR ''+'' \<longleftrightarrow> x = CHR ''+''"
  "lower_char x = CHR ''-'' \<longleftrightarrow> x = CHR ''-''"
  by (rule lower_char_eq_iff; simp add: lower_char_def is_upper_az_def code_def)+


lemma lower_takeWhile:
  "(\<And>x. P (lower_char x) = P x) \<Longrightarrow> takeWhile P (lower s) = lower (takeWhile P s)"
  by (induction s) (auto simp: lower_def)

lemma lower_dropWhile:
  "(\<And>x. P (lower_char x) = P x) \<Longrightarrow> dropWhile P (lower s) = lower (dropWhile P s)"
  by (induction s) (auto simp: lower_def)

lemma lower_filter:
  "(\<And>x. P (lower_char x) = P x) \<Longrightarrow> filter P (lower s) = lower (filter P s)"
  by (induction s) (auto simp: lower_def)

lemma lower_list_all:
  "(\<And>x. P (lower_char x) = P x) \<Longrightarrow> list_all P (lower s) = list_all P s"
  by (induction s) (auto simp: lower_def)

lemma lower_list_ex:
  "(\<And>x. P (lower_char x) = P x) \<Longrightarrow> list_ex P (lower s) = list_ex P s"
  by (induction s) (auto simp: lower_def)

lemma lower_mem:
  assumes "\<And>x. lower_char x = c \<longleftrightarrow> x = c"
  shows "c \<in> set (lower s) \<longleftrightarrow> c \<in> set s"
proof -
  have "c \<in> set (lower s) \<longleftrightarrow> (\<exists>x\<in>set s. lower_char x = c)"
    by (auto simp: lower_def)
  also have "\<dots> \<longleftrightarrow> (\<exists>x\<in>set s. x = c)"
    using assms by simp
  finally show ?thesis by simp
qed

lemma lower_simps:
  "lower [] = []" "lower (x # xs) = lower_char x # lower xs"
  "lower (a @ b) = lower a @ lower b" "lower (rev s) = rev (lower s)"
  "lower (tl s) = tl (lower s)" "lower (take n s) = take n (lower s)"
  "lower (drop n s) = drop n (lower s)" "length (lower s) = length s"
  "lower s = [] \<longleftrightarrow> s = []"
  by (simp_all add: lower_def rev_map map_tl take_map drop_map)

lemma lower_back:
  "rev (lower s) = lower (rev s)" "tl (lower s) = lower (tl s)"
  "take n (lower s) = lower (take n s)" "drop n (lower s) = lower (drop n s)"
  by (simp_all add: lower_simps)

lemma lower_lower: "lower (lower s) = lower s"
  by (simp add: lower_def lower_char_idem)

lemma code_lower_le32: "code (lower_char x) \<le> 32 \<longleftrightarrow> code x \<le> 32"
  using lower_char_changed [of x] by (cases "lower_char x = x") auto

lemma code_lower_eq_small: "n < 65 \<Longrightarrow> code (lower_char x) = n \<longleftrightarrow> code x = n"
  using lower_char_changed [of x] by (cases "lower_char x = x") auto

lemma lower_lstrip_c0: "lstrip_c0 (lower s) = lower (lstrip_c0 s)"
  unfolding lstrip_c0_def by (rule lower_dropWhile) (rule code_lower_le32)

lemma lower_remove_unsafe: "remove_unsafe (lower s) = lower (remove_unsafe s)"
  unfolding remove_unsafe_def by (rule lower_filter) (simp add: code_lower_eq_small)

lemma lower_after_last:
  "(\<And>x. lower_char x = c \<longleftrightarrow> x = c) \<Longrightarrow> after_last c (lower s) = lower (after_last c s)"
  unfolding after_last_def
  by (simp add: lower_back lower_takeWhile)

lemma lower_before_last:
  "(\<And>x. lower_char x = c \<longleftrightarrow> x = c) \<Longrightarrow> before_last c (lower s) = lower (before_last c s)"
  unfolding before_last_def
  by (simp add: lower_back lower_dropWhile)

lemma lower_basename: "basename (lower p) = lower (basename p)"
  unfolding basename_def by (rule lower_after_last) (rule lower_fix)

lemma is_delim_lower: "is_delim (lower_char x) = is_delim x"
  by (simp add: is_delim_def lower_fix)

lemma lower_splitnetloc:
  "splitnetloc (lower s) = (lower (fst (splitnetloc s)), lower (snd (splitnetloc s)))"
  by (simp add: splitnetloc_def lower_back lower_takeWhile lower_dropWhile
      is_delim_lower)

lemma lower_split_first:
  "(\<And>x. lower_char x = c \<longleftrightarrow> x = c) \<Longrightarrow>
   split_first c (lower s) = (lower (fst (split_first c s)), lower (snd (split_first c s)))"
  by (simp add: split_first_def lower_mem lower_simps lower_takeWhile lower_dropWhile)



lemma ascii_alpha_lower:
  "(is_lower_az (lower_char c) \<or> is_upper_az (lower_char c)) = (is_lower_az c \<or> is_upper_az c)"
  using code_lt_256 [of c]
  by (auto simp: lower_char_def is_upper_az_def is_lower_az_def code_char_of)

lemma is_digit_lower: "is_digit (lower_char c) = is_digit c"
  using code_lt_256 [of c]
  by (auto simp: lower_char_def is_upper_az_def is_digit_def code_char_of)

lemma scheme_char_lower: "scheme_char (lower_char c) = scheme_char c"
  using ascii_alpha_lower [of c] is_digit_lower [of c]
  by (auto simp: scheme_char_def lower_fix)

lemma hd_lower: "s \<noteq> [] \<Longrightarrow> hd (lower s) = lower_char (hd s)"
  by (cases s) (simp_all add: lower_simps)

lemma lower_split_scheme:
  "split_scheme (lower s) = (fst (split_scheme s), lower (snd (split_scheme s)))"
proof -
  have tw: "takeWhile (\<lambda>c. c \<noteq> CHR '':'') (lower s) = lower (takeWhile (\<lambda>c. c \<noteq> CHR '':'') s)"
    by (rule lower_takeWhile) (simp add: lower_fix)
  have dw: "dropWhile (\<lambda>c. c \<noteq> CHR '':'') (lower s) = lower (dropWhile (\<lambda>c. c \<noteq> CHR '':'') s)"
    by (rule lower_dropWhile) (simp add: lower_fix)
  have mem: "CHR '':'' \<in> set (lower s) \<longleftrightarrow> CHR '':'' \<in> set s"
    by (rule lower_mem) (rule lower_fix)
  have la: "list_all scheme_char (lower p) = list_all scheme_char p" for p
    by (rule lower_list_all) (rule scheme_char_lower)
  define pre where "pre = takeWhile (\<lambda>c. c \<noteq> CHR '':'') s"
  have c: "(lower pre \<noteq> [] \<and> (is_lower_az (hd (lower pre)) \<or> is_upper_az (hd (lower pre))))
         = (pre \<noteq> [] \<and> (is_lower_az (hd pre) \<or> is_upper_az (hd pre)))"
    by (cases "pre = []") (simp_all add: hd_lower ascii_alpha_lower lower_simps(9))
  show ?thesis
    unfolding split_scheme_def Let_def tw dw mem la pre_def [symmetric]
    using c by (auto simp: lower_lower lower_back)
qed

lemma take2_lower: "take 2 (lower s) = ''//'' \<longleftrightarrow> take 2 s = ''//''"
proof (cases s)
  case Nil
  then show ?thesis by (simp add: lower_simps)
next
  case (Cons a t)
  then show ?thesis by (cases t) (auto simp: lower_simps lower_fix)
qed

lemma lower_split_authority:
  "split_authority (lower u) =
     (case split_authority u of (sch, nl, rest) \<Rightarrow> (sch, lower nl, lower rest))"
  unfolding split_authority_def Let_def lower_lstrip_c0 lower_remove_unsafe
  by (simp add: lower_split_scheme [of "remove_unsafe (lstrip_c0 u)"] take2_lower
      lower_splitnetloc lower_simps split: prod.splits)


lemma bracket_mem_lower:
  "CHR ''['' \<in> set (lower nl) \<longleftrightarrow> CHR ''['' \<in> set nl"
  "CHR '']'' \<in> set (lower nl) \<longleftrightarrow> CHR '']'' \<in> set nl"
  by (rule lower_mem, rule lower_fix)+

lemma lower_split_rest:
  "(case split_first CHR ''#'' (lower rest) of
      (url4, frag) \<Rightarrow> (case split_first CHR ''?'' url4 of (url5, qry) \<Rightarrow> f url5 qry frag))
   = (case split_first CHR ''#'' rest of
      (url4, frag) \<Rightarrow> (case split_first CHR ''?'' url4 of
         (url5, qry) \<Rightarrow> f (lower url5) (lower qry) (lower frag)))"
  by (simp add: lower_split_first lower_fix split: prod.splits)

lemma urlsplit_lower:
  assumes "urlsplit bh u = Inr r" and "urlsplit bh (lower u) = Inr r'"
  shows "r' = \<lparr>scheme = scheme r, netloc = lower (netloc r), path = lower (path r),
               params = [], query = lower (query r), fragment = lower (fragment r)\<rparr>"
proof -
  obtain sch nl rest where sa: "split_authority u = (sch, nl, rest)"
    by (cases "split_authority u") auto
  then have sal: "split_authority (lower u) = (sch, lower nl, lower rest)"
    by (simp add: lower_split_authority)
  from assms(1) sa have r: "(let (url4, frag) = split_first CHR ''#'' rest;
                 (url5, qry) = split_first CHR ''?'' url4
             in \<lparr>scheme = sch, netloc = nl, path = url5, params = [], query = qry,
                      fragment = frag\<rparr>) = r"
    by (auto simp: urlsplit_def Let_def split: if_splits prod.splits)
  from assms(2) sal have r': "(let (url4, frag) = split_first CHR ''#'' (lower rest);
                 (url5, qry) = split_first CHR ''?'' url4
             in \<lparr>scheme = sch, netloc = lower nl, path = url5, params = [], query = qry,
                      fragment = frag\<rparr>) = r'"
    by (auto simp: urlsplit_def Let_def split: if_splits prod.splits)
  show ?thesis
    using r r' unfolding Let_def lower_split_rest
    by (auto split: prod.splits)
qed



lemma lower_splitparams:
  "splitparams (lower p) = (lower (fst (splitparams p)), lower (snd (splitparams p)))"
proof -
  have m1: "CHR ''/'' \<in> set (lower q) \<longleftrightarrow> CHR ''/'' \<in> set q" for q
    by (rule lower_mem) (rule lower_fix)
  have m2: "CHR '';'' \<in> set (lower q) \<longleftrightarrow> CHR '';'' \<in> set q" for q
    by (rule lower_mem) (rule lower_fix)
  have al: "after_last CHR ''/'' (lower p) = lower (after_last CHR ''/'' p)"
    by (rule lower_after_last) (rule lower_fix)
  have tw: "takeWhile (\<lambda>c. c \<noteq> CHR '';'') (lower q) = lower (takeWhile (\<lambda>c. c \<noteq> CHR '';'') q)" for q
    by (rule lower_takeWhile) (simp add: lower_fix)
  have dw: "dropWhile (\<lambda>c. c \<noteq> CHR '';'') (lower q) = lower (dropWhile (\<lambda>c. c \<noteq> CHR '';'') q)" for q
    by (rule lower_dropWhile) (simp add: lower_fix)
  show ?thesis
    unfolding splitparams_def Let_def al m1 m2 tw dw
    by (simp add: lower_simps)
qed

lemma urlparse_ok_iff: "(\<exists>r. urlparse bh u = Inr r) \<longleftrightarrow> (\<exists>r. urlsplit bh u = Inr r)"
  by (auto simp: urlparse_def Let_def split: sum.splits prod.splits)


lemma urlparse_lower:
  assumes "urlparse bh u = Inr r" and "urlparse bh (lower u) = Inr r'"
  shows "scheme r' = scheme r \<and> netloc r' = lower (netloc r) \<and> path r' = lower (path r)"
proof -
  from assms(1) obtain r0 where r0: "urlsplit bh u = Inr r0"
    using urlparse_ok_iff by blast
  from assms(2) obtain r0' where r0': "urlsplit bh (lower u) = Inr r0'"
    using urlparse_ok_iff by blast
  have eq: "r0' = \<lparr>scheme = scheme r0, netloc = lower (netloc r0), path = lower (path r0),
               params = [], query = lower (query r0), fragment = lower (fragment r0)\<rparr>"
    using r0 r0' by (rule urlsplit_lower)
  have m: "CHR '';'' \<in> set (lower q) \<longleftrightarrow> CHR '';'' \<in> set q" for q
    by (rule lower_mem) (rule lower_fix)
  from assms(1) r0 have r: "r = (if scheme r0 \<in> set uses_params \<and> CHR '';'' \<in> set (path r0)
          then r0\<lparr>path := fst (splitparams (path r0)), params := snd (splitparams (path r0))\<rparr>
          else r0)"
    by (auto simp: urlparse_def Let_def split: prod.splits if_splits)
  from assms(2) r0' have r': "r' = (if scheme r0' \<in> set uses_params \<and> CHR '';'' \<in> set (path r0')
          then r0'\<lparr>path := fst (splitparams (path r0')), params := snd (splitparams (path r0'))\<rparr>
          else r0')"
    by (auto simp: urlparse_def Let_def split: prod.splits if_splits)
  show ?thesis
    unfolding r r' eq by (simp add: m lower_splitparams)
qed

lemma get_filename_lower:
  assumes "urlparse bh u = Inr r" and "get_filename bh (lower u) = Inr name"
  shows "name = lower (basename (path r))"
proof -
  from assms(2) obtain r' where r': "urlparse bh (lower u) = Inr r'" "name = basename (path r')"
    by (auto simp: get_filename_def split: sum.splits)
  with assms(1) urlparse_lower [of bh u r r'] show ?thesis
    by (simp add: lower_basename)
qed

lemma split_scheme_subset: "set (snd (split_scheme s)) \<subseteq> set s"
proof -
  have "set (tl (dropWhile (\<lambda>c. c \<noteq> CHR '':'') s)) \<subseteq> set s"
    by (metis list.set_sel(2) set_dropWhileD subsetI tl_Nil)
  then show ?thesis by (simp add: split_scheme_def Let_def)
qed

lemma split_authority_subset:
  assumes "split_authority u = (sch, nl, rest)"
  shows "set nl \<subseteq> set u"
proof -
  let ?u1 = "remove_unsafe (lstrip_c0 u)"
  have u1: "set ?u1 \<subseteq> set u"
    by (auto simp: remove_unsafe_def lstrip_c0_def dest: set_dropWhileD)
  have "set nl \<subseteq> set (snd (split_scheme ?u1))"
    using assms
    by (auto simp: split_authority_def Let_def splitnetloc_def split: prod.splits if_splits
        dest!: set_takeWhileD in_set_dropD)
  with split_scheme_subset [of ?u1] u1 show ?thesis by blast
qed

lemma urlparse_no_brackets:
  assumes "CHR ''['' \<notin> set u" and "CHR '']'' \<notin> set u"
  shows "\<exists>r. urlparse bh u = Inr r"
proof -
  obtain sch nl rest where sa: "split_authority u = (sch, nl, rest)"
    by (cases "split_authority u") auto
  then have "set nl \<subseteq> set u" by (rule split_authority_subset)
  with assms have "CHR ''['' \<notin> set nl" "CHR '']'' \<notin> set nl" by auto
  with sa have "\<exists>r. urlsplit bh u = Inr r"
    by (simp add: urlsplit_def Let_def split: prod.splits)
  then show ?thesis using urlparse_ok_iff by blast
qed

section \<open>The sanitized filename\<close>

lemmas url_eval = url_to_filename_def get_filename_def urlparse_def urlsplit_def
  split_authority_def lower_def lower_char_def code_def is_upper_az_def lstrip_c0_def
  remove_unsafe_def split_scheme_def is_lower_az_def scheme_char_def is_digit_def
  splitnetloc_def is_delim_def split_first_def uses_params_def basename_def after_last_def
  splitext_ext_def before_last_def safe_stem_def replace_unsafe_def strip_underscores_def
  endswith_def splitparams_def bracketed_host_def is_url_valid_def

lemma splitext_ext_shape:
  assumes "splitext_ext n \<noteq> []"
  shows "\<exists>e. splitext_ext n = CHR ''.'' # e \<and> CHR ''.'' \<notin> set e \<and> CHR ''/'' \<notin> set e"
proof -
  let ?e = "after_last CHR ''.'' (basename n)"
  from assms have eq: "splitext_ext n = CHR ''.'' # ?e"
    by (simp add: splitext_ext_def Let_def split: if_splits)
  have "CHR ''.'' \<notin> set ?e"
    by (auto simp: after_last_def dest: set_takeWhileD)
  moreover have "CHR ''/'' \<notin> set (basename n)"
    by (auto simp: basename_def after_last_def dest: set_takeWhileD)
  then have "CHR ''/'' \<notin> set ?e"
    by (auto simp: after_last_def dest: set_takeWhileD)
  ultimately show ?thesis using eq by blast
qed

text \<open>
  C10. The stem that \<^verbatim>\<open>url_to_filename\<close> computes has only characters of \<^verbatim>\<open>[a-z0-9_]\<close>
  and so no dot; the test "does not end with .pdf" therefore always succeeds and the
  recorded extension, or \<^verbatim>\<open>.pdf\<close> when there is none, is appended in every case. The
  basename \<^verbatim>\<open>x.aspx\<close> gives \<^verbatim>\<open>x_aspx.aspx\<close>.
\<close>

theorem extension_always_appended:
  "(\<forall>f. url_to_filename bh u = Inr f \<longrightarrow>
      (\<exists>name. get_filename bh (lower u) = Inr name
         \<and> list_all stem_char (safe_stem name)
         \<and> CHR ''.'' \<notin> set (safe_stem name)
         \<and> \<not> endswith (safe_stem name) ''.pdf''
         \<and> f = safe_stem name @ (if splitext_ext name = [] then ''.pdf'' else splitext_ext name)))
   \<and> url_to_filename bh ''https://example.com/x.aspx'' = Inr ''x_aspx.aspx''"
proof -
  have "url_to_filename bh ''https://example.com/x.aspx'' = Inr ''x_aspx.aspx''"
    by (simp add: url_eval)
  moreover have "list_all stem_char (safe_stem name)" for name
    using stem_char_safe_stem by (simp add: list_all_iff)
  ultimately show ?thesis
    using url_to_filename_appends no_dot_safe_stem safe_stem_not_pdf by blast
qed

theorem extension_always_appended_witness:
  "url_to_filename any_host ''https://example.com/docs/Guide.v2.PDF'' = Inr ''guide_v2.pdf''
   \<and> (\<exists>name. get_filename any_host (lower ''https://example.com/docs/Guide.v2.PDF'') = Inr name
         \<and> CHR ''.'' \<notin> set (safe_stem name)
         \<and> ''guide_v2.pdf'' = safe_stem name @ (if splitext_ext name = [] then ''.pdf'' else splitext_ext name))"
proof -
  have v: "url_to_filename any_host ''https://example.com/docs/Guide.v2.PDF'' = Inr ''guide_v2.pdf''"
    by code_simp
  with extension_always_appended [of any_host "''https://example.com/docs/Guide.v2.PDF''"]
  show ?thesis by blast
qed

text \<open>
  C3, as stated. The filename of a link \<^verbatim>\<open>.../pdf/?productID=40002569\<close> is \<^verbatim>\<open>.pdf\<close>, whose
  stem is empty: it does not have the form \<^verbatim>\<open>^[a-z0-9_]+\.(ext)$\<close>.
\<close>

theorem sanitized_form_counterexample:
  "url_to_filename any_host ''https://churchdwight.com/pdf/?productID=40002569'' = Inr ''.pdf''
   \<and> \<not> sanitized_form ''.pdf''"
  by code_simp

text \<open>
  C3, amended. Every string that \<^verbatim>\<open>url_to_filename\<close> returns is a stem of characters of
  \<^verbatim>\<open>[a-z0-9_]\<close>, possibly empty, then a dot and an extension without dot or slash; the
  extension is \<^verbatim>\<open>pdf\<close> when the basename of the lower-cased URL records none, and the
  recorded one otherwise.
\<close>

theorem sanitized_filename_form:
  assumes "url_to_filename bh u = Inr f"
  shows "\<exists>name stem ext. get_filename bh (lower u) = Inr name
           \<and> f = stem @ CHR ''.'' # ext
           \<and> list_all stem_char stem
           \<and> CHR ''.'' \<notin> set ext \<and> CHR ''/'' \<notin> set ext
           \<and> (if splitext_ext name = [] then ext = ''pdf'' else CHR ''.'' # ext = splitext_ext name)"
proof -
  from assms obtain name where n: "get_filename bh (lower u) = Inr name"
      and f: "f = safe_stem name @ (if splitext_ext name = [] then ''.pdf'' else splitext_ext name)"
    using url_to_filename_appends by blast
  have st: "list_all stem_char (safe_stem name)"
    using stem_char_safe_stem by (simp add: list_all_iff)
  show ?thesis
  proof (cases "splitext_ext name = []")
    case True
    with f have "f = safe_stem name @ CHR ''.'' # ''pdf''" by simp
    moreover have "CHR ''.'' \<notin> set ''pdf''" "CHR ''/'' \<notin> set ''pdf''" by simp_all
    ultimately show ?thesis using n st True by (intro exI [of _ name] exI [of _ "safe_stem name"] exI [of _ "''pdf''"]) simp
  next
    case False
    then obtain e where e: "splitext_ext name = CHR ''.'' # e" "CHR ''.'' \<notin> set e" "CHR ''/'' \<notin> set e"
      using splitext_ext_shape by blast
    with f False have "f = safe_stem name @ CHR ''.'' # e" by simp
    then show ?thesis using n st e False by (intro exI [of _ name] exI [of _ "safe_stem name"] exI [of _ e]) simp
  qed
qed

theorem sanitized_filename_form_witness:
  "url_to_filename any_host ''https://example.com/a/Email-Diamant-Formule-Rouge.aspx''
     = Inr ''email_diamant_formule_rouge_aspx.aspx''
   \<and> (\<exists>name stem ext.
         get_filename any_host (lower ''https://example.com/a/Email-Diamant-Formule-Rouge.aspx'') = Inr name
         \<and> ''email_diamant_formule_rouge_aspx.aspx'' = stem @ CHR ''.'' # ext
         \<and> list_all stem_char stem
         \<and> CHR ''.'' \<notin> set ext \<and> CHR ''/'' \<notin> set ext
         \<and> (if splitext_ext name = [] then ext = ''pdf'' else CHR ''.'' # ext = splitext_ext name))"
proof -
  have v: "url_to_filename any_host ''https://example.com/a/Email-Diamant-Formule-Rouge.aspx''
     = Inr ''email_diamant_formule_rouge_aspx.aspx''"
    by code_simp
  from sanitized_filename_form [OF v] v show ?thesis by blast
qed

text \<open>
  C8. \<^verbatim>\<open>is_url_valid\<close> returns a boolean for every string and never raises: when the parser
  raises, it returns False. It returns True exactly when the string parses into a URL with a
  scheme and a network location. The three examples of the specification hold.
\<close>

theorem is_url_valid_total:
  "(\<exists>b. is_url_valid bh url = Inr b)
   \<and> (is_url_valid bh url = Inr True \<longleftrightarrow>
        (\<exists>r. urlparse bh url = Inr r \<and> scheme r \<noteq> [] \<and> netloc r \<noteq> []))
   \<and> (urlparse bh url = Inl e \<longrightarrow> is_url_valid bh url = Inr False)
   \<and> is_url_valid bh ''https://example.com/x'' = Inr True
   \<and> is_url_valid bh ''not a url'' = Inr False
   \<and> is_url_valid bh [] = Inr False"
proof -
  have "is_url_valid bh ''https://example.com/x'' = Inr True"
    by (simp add: url_eval)
  moreover have "is_url_valid bh ''not a url'' = Inr False"
    by (simp add: url_eval)
  moreover have "is_url_valid bh [] = Inr False"
    by (simp add: url_eval)
  moreover have "\<exists>b. is_url_valid bh url = Inr b"
    by (cases "urlparse bh url") (auto simp: is_url_valid_def)
  moreover have "is_url_valid bh url = Inr True \<longleftrightarrow>
        (\<exists>r. urlparse bh url = Inr r \<and> scheme r \<noteq> [] \<and> netloc r \<noteq> [])"
    by (cases "urlparse bh url") (simp_all add: is_url_valid_def)
  moreover have "urlparse bh url = Inl e \<longrightarrow> is_url_valid bh url = Inr False"
    by (simp add: is_url_valid_def)
  ultimately show ?thesis by blast
qed

theorem is_url_valid_total_witness:
  "urlparse any_host ''http://[::1/x'' = Inl ValueError
   \<and> is_url_valid any_host ''http://[::1/x'' = Inr False
   \<and> is_url_valid any_host ''HTTPS://Example.com:8080/a?b#c'' = Inr True"
proof -
  have a: "urlparse any_host ''http://[::1/x'' = Inl ValueError" by code_simp
  have "urlparse any_host ''HTTPS://Example.com:8080/a?b#c''
      = Inr \<lparr>scheme = ''https'', netloc = ''Example.com:8080'', path = ''/a'', params = [],
             query = ''b'', fragment = ''c''\<rparr>"
    by code_simp
  then have b: "\<exists>r. urlparse any_host ''HTTPS://Example.com:8080/a?b#c'' = Inr r
      \<and> scheme r \<noteq> [] \<and> netloc r \<noteq> []"
    by simp
  from is_url_valid_total [of any_host "''http://[::1/x''" ValueError] a
  have "is_url_valid any_host ''http://[::1/x'' = Inr False" by blast
  moreover from is_url_valid_total [of any_host "''HTTPS://Example.com:8080/a?b#c''"] b
  have "is_url_valid any_host ''HTTPS://Example.com:8080/a?b#c'' = Inr True" by blast
  ultimately show ?thesis using a by blast
qed

subsection \<open>URLs whose path ends with a slash\<close>

lemma after_last_Nil_iff: "after_last c x = [] \<longleftrightarrow> x = [] \<or> last x = c"
proof (cases x rule: rev_cases)
  case Nil
  then show ?thesis by (simp add: after_last_def)
next
  case (snoc ys y)
  then show ?thesis by (simp add: after_last_def)
qed

lemma ends_drop: "x = [] \<or> last x = c \<Longrightarrow> drop n x = [] \<or> last (drop n x) = c"
  by (cases "n < length x") (auto simp: last_drop)

lemma seg_drop:
  "\<forall>c\<in>set (take n s). P c \<Longrightarrow> takeWhile P (drop n s) = drop n (takeWhile P s)"
proof (induction s arbitrary: n)
  case Nil
  then show ?case by simp
next
  case (Cons a s)
  then show ?case by (cases n) auto
qed

lemma seg_filter:
  "(\<And>c. \<not> P c \<Longrightarrow> F c) \<Longrightarrow> takeWhile P (filter F s) = filter F (takeWhile P s)"
  by (induction s) auto

lemma ends_filter:
  assumes "x = [] \<or> last x = c" and "F c"
  shows "filter F x = [] \<or> last (filter F x) = c"
proof (cases x rule: rev_cases)
  case Nil
  then show ?thesis by simp
next
  case (snoc ys y)
  with assms show ?thesis by simp
qed

lemma slashed_seg_drop:
  assumes "slashed (seg s)" and "\<forall>c\<in>set (take n s). c \<noteq> CHR ''?'' \<and> c \<noteq> CHR ''#''"
  shows "slashed (seg (drop n s))"
  using assms ends_drop [of "seg s" "CHR ''/''" n]
  unfolding slashed_def seg_def by (simp add: seg_drop)

lemma dropWhile_as_drop: "dropWhile P s = drop (length (takeWhile P s)) s"
  by (rule dropWhile_eq_drop)

lemma take_len_takeWhile: "take (length (takeWhile P s)) s = takeWhile P s"
  by (rule takeWhile_eq_take [symmetric])

lemma slashed_lstrip: "slashed (seg s) \<Longrightarrow> slashed (seg (lstrip_c0 s))"
  unfolding lstrip_c0_def dropWhile_as_drop
  by (rule slashed_seg_drop) (auto simp: take_len_takeWhile code_def dest!: set_takeWhileD)

lemma slashed_remove_unsafe: "slashed (seg s) \<Longrightarrow> slashed (seg (remove_unsafe s))"
proof -
  assume a: "slashed (seg s)"
  have "seg (remove_unsafe s) = remove_unsafe (seg s)"
    unfolding seg_def remove_unsafe_def by (rule seg_filter) (auto simp: code_def)
  moreover have "slashed (remove_unsafe (seg s))"
    using a unfolding slashed_def remove_unsafe_def
    by (rule ends_filter) (simp add: code_def)
  ultimately show ?thesis by simp
qed

lemma scheme_char_not_delim: "scheme_char c \<Longrightarrow> c \<noteq> CHR ''?'' \<and> c \<noteq> CHR ''#'' \<and> c \<noteq> CHR ''/''"
  by (auto simp: scheme_char_def is_lower_az_def is_upper_az_def is_digit_def code_def)

lemma slashed_split_scheme:
  assumes "slashed (seg s)"
  shows "slashed (seg (snd (split_scheme s)))"
proof (cases "snd (split_scheme s) = s")
  case True
  with assms show ?thesis by simp
next
  case False
  let ?pre = "takeWhile (\<lambda>c. c \<noteq> CHR '':'') s"
  from False have c: "CHR '':'' \<in> set s" "list_all scheme_char ?pre"
    and r: "snd (split_scheme s) = tl (dropWhile (\<lambda>c. c \<noteq> CHR '':'') s)"
    by (auto simp: split_scheme_def Let_def split: if_splits)
  have d: "tl (dropWhile (\<lambda>c. c \<noteq> CHR '':'') s) = drop (Suc (length ?pre)) s"
    by (simp add: dropWhile_as_drop drop_Suc tl_drop)
  have t: "take (Suc (length ?pre)) s = ?pre @ [CHR '':'']"
  proof -
    from c(1) have ne: "dropWhile (\<lambda>c. c \<noteq> CHR '':'') s \<noteq> []"
      by (simp add: dropWhile_eq_Nil_conv)
    then have "hd (dropWhile (\<lambda>c. c \<noteq> CHR '':'') s) = CHR '':''"
      using hd_dropWhile [of "\<lambda>c. c \<noteq> CHR '':''" s] by simp
    with ne have "dropWhile (\<lambda>c. c \<noteq> CHR '':'') s
        = CHR '':'' # tl (dropWhile (\<lambda>c. c \<noteq> CHR '':'') s)"
      by (cases "dropWhile (\<lambda>c. c \<noteq> CHR '':'') s") simp_all
    then have "s = ?pre @ CHR '':'' # tl (dropWhile (\<lambda>c. c \<noteq> CHR '':'') s)"
      using takeWhile_dropWhile_id [of "\<lambda>c. c \<noteq> CHR '':''" s] by simp
    then have "take (Suc (length ?pre)) s
        = take (Suc (length ?pre)) (?pre @ CHR '':'' # tl (dropWhile (\<lambda>c. c \<noteq> CHR '':'') s))"
      by simp
    then show ?thesis by simp
  qed
  have "\<forall>c\<in>set (take (Suc (length ?pre)) s). c \<noteq> CHR ''?'' \<and> c \<noteq> CHR ''#''"
    unfolding t using c(2) scheme_char_not_delim by (auto simp: list_all_iff)
  with assms show ?thesis
    unfolding r d by (rule slashed_seg_drop)
qed

lemma slashed_splitnetloc:
  assumes "slashed (seg s)" and "take 2 s = ''//''"
  shows "slashed (seg (snd (splitnetloc s)))"
proof -
  let ?m = "length (takeWhile (\<lambda>c. \<not> is_delim c) (drop 2 s))"
  have r: "snd (splitnetloc s) = drop (2 + ?m) s"
    by (simp add: splitnetloc_def dropWhile_as_drop add.commute)
  have "take (2 + ?m) s = take 2 s @ take ?m (drop 2 s)"
    by (rule take_add)
  also have "take ?m (drop 2 s) = takeWhile (\<lambda>c. \<not> is_delim c) (drop 2 s)"
    by (rule take_len_takeWhile)
  finally have t: "take (2 + ?m) s = ''//'' @ takeWhile (\<lambda>c. \<not> is_delim c) (drop 2 s)"
    using assms(2) by simp
  have "\<forall>c\<in>set (take (2 + ?m) s). c \<noteq> CHR ''?'' \<and> c \<noteq> CHR ''#''"
    unfolding t by (auto simp: is_delim_def dest!: set_takeWhileD)
  with assms(1) show ?thesis
    unfolding r by (rule slashed_seg_drop)
qed

lemma slashed_split_authority:
  assumes "slashed (seg u)" and "split_authority u = (sch, nl, rest)"
  shows "slashed (seg rest)"
proof -
  let ?u1 = "remove_unsafe (lstrip_c0 u)"
  let ?u2 = "snd (split_scheme ?u1)"
  have s2: "slashed (seg ?u2)"
    using assms(1) by (intro slashed_split_scheme slashed_remove_unsafe slashed_lstrip)
  from assms(2) have "rest = (if take 2 ?u2 = ''//'' then snd (splitnetloc ?u2) else ?u2)"
    by (auto simp: split_authority_def Let_def split: prod.splits if_splits)
  with s2 slashed_splitnetloc [of ?u2] show ?thesis by auto
qed

lemma urlsplit_path:
  assumes "urlsplit bh u = Inr r" and "split_authority u = (sch, nl, rest)"
  shows "path r = seg rest"
proof -
  have "fst (split_first CHR ''?'' (fst (split_first CHR ''#'' rest))) = seg rest"
    unfolding seg_def split_first_def
    by (induction rest) auto
  moreover from assms have "path r = fst (split_first CHR ''?'' (fst (split_first CHR ''#'' rest)))"
    by (auto simp: urlsplit_def Let_def split: if_splits prod.splits)
  ultimately show ?thesis by simp
qed

lemma urlparse_path_slashed:
  assumes "urlparse bh u = Inr r" and "slashed (seg u)"
  shows "basename (path r) = []"
proof -
  from assms(1) obtain r0 where r0: "urlsplit bh u = Inr r0"
    using urlparse_ok_iff by blast
  obtain sch nl rest where sa: "split_authority u = (sch, nl, rest)"
    by (cases "split_authority u") auto
  have p0: "slashed (path r0)"
    using urlsplit_path [OF r0 sa] slashed_split_authority [OF assms(2) sa] by simp
  then have al: "after_last CHR ''/'' (path r0) = []"
    by (simp add: after_last_Nil_iff slashed_def)
  have "splitparams (path r0) = (path r0, [])"
  proof (cases "CHR ''/'' \<in> set (path r0)")
    case True
    then show ?thesis by (simp add: splitparams_def al)
  next
    case False
    with p0 have "path r0 = []"
      unfolding slashed_def by (cases "path r0" rule: rev_cases) auto
    then show ?thesis by (simp add: splitparams_def)
  qed
  with assms(1) r0 have "path r = path r0"
    by (auto simp: urlparse_def Let_def split: if_splits)
  with al show ?thesis by (simp add: basename_def)
qed

lemma url_to_filename_empty_name:
  assumes "get_filename bh (lower u) = Inr []"
  shows "url_to_filename bh u = Inr ''.pdf''"
  using assms
  by (simp add: url_to_filename_def safe_stem_def splitext_ext_def basename_def after_last_def
      replace_unsafe_def strip_underscores_def endswith_def)


lemma seg_product_link:
  assumes "CHR ''?'' \<notin> set pre" and "CHR ''#'' \<notin> set pre"
  shows "seg (pre @ ''/pdf/?productID='' @ ds) = pre @ ''/pdf/''"
proof -
  have "seg (pre @ t) = pre @ seg t" for t
    unfolding seg_def using assms by (intro takeWhile_append2) auto
  then show ?thesis by (simp add: seg_def)
qed

lemma product_link_filename:
  assumes "u = pre @ ''/pdf/?productID='' @ ds"
    and "CHR ''?'' \<notin> set pre" and "CHR ''#'' \<notin> set pre"
    and "url_to_filename bh u = Inr f"
  shows "f = ''.pdf''"
proof -
  from assms(4) obtain name where n: "get_filename bh (lower u) = Inr name"
    using url_to_filename_appends by blast
  then obtain r where r: "urlparse bh (lower u) = Inr r" "name = basename (path r)"
    by (auto simp: get_filename_def split: sum.splits)
  have m: "CHR ''?'' \<notin> set (lower pre)" "CHR ''#'' \<notin> set (lower pre)"
    using assms(2,3) lower_mem [of _ pre] by (simp_all add: lower_fix)
  have lu: "lower u = lower pre @ lower ''/pdf/?productID='' @ lower ds"
    unfolding assms(1) by (simp add: lower_simps)
  have "seg (lower u) = lower pre @ ''/pdf/''"
  proof -
    have "seg (lower pre @ t) = lower pre @ seg t" for t
      unfolding seg_def using m by (intro takeWhile_append2) auto
    moreover have "seg (lower ''/pdf/?productID='' @ lower ds) = ''/pdf/''"
      by (simp add: seg_def lower_def lower_char_def is_upper_az_def code_def)
    ultimately show ?thesis unfolding lu by simp
  qed
  then have "slashed (seg (lower u))" by (simp add: slashed_def)
  with r have "name = []" using urlparse_path_slashed by simp
  with n assms(4) show ?thesis
    using url_to_filename_empty_name [of bh u] by simp
qed



lemma url_to_filename_ok_iff:
  "(\<exists>f. url_to_filename bh u = Inr f) \<longleftrightarrow> (\<exists>r. urlparse bh (lower u) = Inr r)"
  by (auto simp: url_to_filename_def get_filename_def Let_def split: sum.splits)

lemma url_to_filename_no_brackets:
  assumes "CHR ''['' \<notin> set u" and "CHR '']'' \<notin> set u"
  shows "\<exists>f. url_to_filename bh u = Inr f"
proof -
  have "CHR ''['' \<notin> set (lower u)" "CHR '']'' \<notin> set (lower u)"
    using assms bracket_mem_lower by simp_all
  then have "\<exists>r. urlparse bh (lower u) = Inr r"
    by (rule urlparse_no_brackets)
  then show ?thesis using url_to_filename_ok_iff by blast
qed





lemma download_pdf_skip:
  assumes "url_to_filename bh u = Inr f" and "file_exists w (d, f)"
  shows "download_pdf bh u d w = (Inr False, emit (Print (FileExistsSkipping (d, f))) w)"
  using assms by (simp add: download_pdf_def)

text \<open>
  C9. The filename depends on the basename of the URL's path only: two URLs that the parser
  accepts and whose paths have the same last segment get the same filename, whatever their
  scheme, host, query and fragment. Two links of the shape \<^verbatim>\<open>.../pdf/?productID=<digits>\<close>
  both get \<^verbatim>\<open>.pdf\<close>, so once the file of the first exists the download of the second is
  skipped.
\<close>

theorem filename_depends_on_basename:
  "(urlparse bh u1 = Inr r1 \<and> urlparse bh u2 = Inr r2
      \<and> basename (path r1) = basename (path r2)
      \<and> url_to_filename bh u1 = Inr f1 \<and> url_to_filename bh u2 = Inr f2 \<longrightarrow> f1 = f2)
   \<and> (u1 = pre1 @ ''/pdf/?productID='' @ ds1 \<and> u2 = pre2 @ ''/pdf/?productID='' @ ds2
      \<and> list_all is_digit ds1 \<and> list_all is_digit ds2
      \<and> CHR ''?'' \<notin> set pre1 \<and> CHR ''#'' \<notin> set pre1
      \<and> CHR ''?'' \<notin> set pre2 \<and> CHR ''#'' \<notin> set pre2
      \<and> url_to_filename bh u1 = Inr f1 \<and> url_to_filename bh u2 = Inr f2
      \<longrightarrow> f1 = ''.pdf'' \<and> f2 = ''.pdf''
          \<and> (file_exists w (d, f1) \<longrightarrow>
                download_pdf bh u2 d w = (Inr False, emit (Print (FileExistsSkipping (d, ''.pdf''))) w)))"
proof -
  have 1: "f1 = f2"
    if "urlparse bh u1 = Inr r1" "urlparse bh u2 = Inr r2" "basename (path r1) = basename (path r2)"
      "url_to_filename bh u1 = Inr f1" "url_to_filename bh u2 = Inr f2"
  proof -
    from that(4) obtain n1 where n1: "get_filename bh (lower u1) = Inr n1"
      "f1 = safe_stem n1 @ (if splitext_ext n1 = [] then ''.pdf'' else splitext_ext n1)"
      using url_to_filename_appends by blast
    from that(5) obtain n2 where n2: "get_filename bh (lower u2) = Inr n2"
      "f2 = safe_stem n2 @ (if splitext_ext n2 = [] then ''.pdf'' else splitext_ext n2)"
      using url_to_filename_appends by blast
    have "n1 = lower (basename (path r1))" using that(1) n1(1) by (rule get_filename_lower)
    moreover have "n2 = lower (basename (path r2))" using that(2) n2(1) by (rule get_filename_lower)
    ultimately show ?thesis using that(3) n1(2) n2(2) by simp
  qed
  have 2: "f1 = ''.pdf'' \<and> f2 = ''.pdf''
          \<and> (file_exists w (d, f1) \<longrightarrow>
                download_pdf bh u2 d w = (Inr False, emit (Print (FileExistsSkipping (d, ''.pdf''))) w))"
    if "u1 = pre1 @ ''/pdf/?productID='' @ ds1" "u2 = pre2 @ ''/pdf/?productID='' @ ds2"
      "CHR ''?'' \<notin> set pre1" "CHR ''#'' \<notin> set pre1" "CHR ''?'' \<notin> set pre2" "CHR ''#'' \<notin> set pre2"
      "url_to_filename bh u1 = Inr f1" "url_to_filename bh u2 = Inr f2"
  proof -
    have a: "f1 = ''.pdf''" using that(1,3,4,7) by (rule product_link_filename)
    have b: "f2 = ''.pdf''" using that(2,5,6,8) by (rule product_link_filename)
    show ?thesis using a b that(8) download_pdf_skip [of bh u2 "''.pdf''" w d] by simp
  qed
  show ?thesis using 1 2 by blast
qed

theorem filename_depends_on_basename_witness:
  "url_to_filename any_host ''https://a.example/x/Report.PDF?v=1'' = Inr ''report.pdf''
   \<and> url_to_filename any_host ''http://b.example/y/z/Report.PDF#top'' = Inr ''report.pdf''
   \<and> url_to_filename any_host ''https://churchdwight.com/pdf/?productID=40002569'' = Inr ''.pdf''
   \<and> url_to_filename any_host ''https://churchdwight.com/pdf/?productID=40002570'' = Inr ''.pdf''
   \<and> download_pdf any_host ''https://churchdwight.com/pdf/?productID=40002570'' ''PDFs''
         (a_world stored_pdf (serve 200 ''application/pdf''))
       = (Inr False, emit (Print (FileExistsSkipping (''PDFs'', ''.pdf'')))
           (a_world stored_pdf (serve 200 ''application/pdf'')))"
proof -
  let ?a = "''https://a.example/x/Report.PDF?v=1''"
  let ?b = "''http://b.example/y/z/Report.PDF#top''"
  let ?u = "''https://churchdwight.com/pdf/?productID=40002569''"
  let ?v = "''https://churchdwight.com/pdf/?productID=40002570''"
  let ?w = "a_world stored_pdf (serve 200 ''application/pdf'')"
  have pa: "urlparse any_host ?a = Inr \<lparr>scheme = ''https'', netloc = ''a.example'',
      path = ''/x/Report.PDF'', params = [], query = ''v=1'', fragment = []\<rparr>"
    by code_simp
  have pb: "urlparse any_host ?b = Inr \<lparr>scheme = ''http'', netloc = ''b.example'',
      path = ''/y/z/Report.PDF'', params = [], query = [], fragment = ''top''\<rparr>"
    by code_simp
  have bn: "basename ''/x/Report.PDF'' = basename ''/y/z/Report.PDF''"
    by code_simp
  have fa: "url_to_filename any_host ?a = Inr ''report.pdf''" by code_simp
  obtain g where fb: "url_to_filename any_host ?b = Inr g"
    using url_to_filename_no_brackets [of ?b any_host] by auto
  from filename_depends_on_basename [where bh = any_host and ?u1.0 = ?a and ?u2.0 = ?b
      and ?f1.0 = "''report.pdf''" and ?f2.0 = g
      and ?r1.0 = "\<lparr>scheme = ''https'', netloc = ''a.example'',
      path = ''/x/Report.PDF'', params = [], query = ''v=1'', fragment = []\<rparr>"
      and ?r2.0 = "\<lparr>scheme = ''http'', netloc = ''b.example'',
      path = ''/y/z/Report.PDF'', params = [], query = [], fragment = ''top''\<rparr>"] pa pb bn fa fb
  have "''report.pdf'' = g" by simp
  with fb have 1: "url_to_filename any_host ?b = Inr ''report.pdf''" by simp
  obtain f1 where f1: "url_to_filename any_host ?u = Inr f1"
    using url_to_filename_no_brackets [of ?u any_host] by auto
  obtain f2 where f2: "url_to_filename any_host ?v = Inr f2"
    using url_to_filename_no_brackets [of ?v any_host] by auto
  have sh: "?u = ''https://churchdwight.com'' @ ''/pdf/?productID='' @ ''40002569''
      \<and> ?v = ''https://churchdwight.com'' @ ''/pdf/?productID='' @ ''40002570''
      \<and> list_all is_digit ''40002569'' \<and> list_all is_digit ''40002570''
      \<and> CHR ''?'' \<notin> set ''https://churchdwight.com'' \<and> CHR ''#'' \<notin> set ''https://churchdwight.com''"
    by (simp add: is_digit_def code_def)
  have ex: "file_exists ?w (''PDFs'', ''.pdf'')"
    by (simp add: file_exists_def a_world_def stored_pdf_def)
  from filename_depends_on_basename [where bh = any_host and ?u1.0 = ?u and ?u2.0 = ?v
      and ?f1.0 = f1 and ?f2.0 = f2 and ?pre1.0 = "''https://churchdwight.com''"
      and ?pre2.0 = "''https://churchdwight.com''" and ?ds1.0 = "''40002569''"
      and ?ds2.0 = "''40002570''" and w = ?w and d = "''PDFs''"] sh f1 f2
  have 2: "f1 = ''.pdf'' \<and> f2 = ''.pdf''
          \<and> (file_exists ?w (''PDFs'', f1) \<longrightarrow>
                download_pdf any_host ?v ''PDFs'' ?w = (Inr False, emit (Print (FileExistsSkipping (''PDFs'', ''.pdf''))) ?w))"
    by blast
  with ex f1 f2 fa 1 show ?thesis by simp
qed

section \<open>Deduplication of the links\<close>

lemma fromkeys_step_prefix:
  "\<exists>ys. foldl (\<lambda>keys k. if k \<in> set keys then keys else keys @ [k]) acc xs = acc @ ys"
proof (induction xs arbitrary: acc)
  case Nil
  then show ?case by simp
next
  case (Cons x xs)
  show ?case
  proof (cases "x \<in> set acc")
    case True
    with Cons [of acc] show ?thesis by simp
  next
    case False
    with Cons [of "acc @ [x]"] show ?thesis by auto
  qed
qed

lemma fromkeys_step_set:
  "set (foldl (\<lambda>keys k. if k \<in> set keys then keys else keys @ [k]) acc xs) = set acc \<union> set xs"
  by (induction xs arbitrary: acc) auto

lemma fromkeys_step_distinct:
  "distinct acc \<Longrightarrow> distinct (foldl (\<lambda>keys k. if k \<in> set keys then keys else keys @ [k]) acc xs)"
  by (induction xs arbitrary: acc) auto

lemma fromkeys_step_Cons:
  "foldl (\<lambda>keys k. if k \<in> set keys then keys else keys @ [k]) (a # acc) xs
   = a # foldl (\<lambda>keys k. if k \<in> set keys then keys else keys @ [k]) acc (filter (\<lambda>y. y \<noteq> a) xs)"
  by (induction xs arbitrary: acc) auto

lemma remove_duplicates_Nil: "remove_duplicates [] = []"
  by (simp add: remove_duplicates_def dict_fromkeys_def)

lemma remove_duplicates_Cons:
  "remove_duplicates (x # xs) = x # remove_duplicates (filter (\<lambda>y. y \<noteq> x) xs)"
  using fromkeys_step_Cons [of x "[]" xs]
  by (simp add: remove_duplicates_def dict_fromkeys_def)

lemma set_remove_duplicates: "set (remove_duplicates xs) = set xs"
  by (simp add: remove_duplicates_def dict_fromkeys_def fromkeys_step_set)

lemma distinct_remove_duplicates: "distinct (remove_duplicates xs)"
  by (simp add: remove_duplicates_def dict_fromkeys_def fromkeys_step_distinct)

lemma count_remove_duplicates:
  "count_list (remove_duplicates xs) x = (if x \<in> set xs then 1 else 0)"
proof -
  have "count_list ys x = (if x \<in> set ys then 1 else 0)" if "distinct ys" for ys
    using that by (induction ys) auto
  from this [OF distinct_remove_duplicates [of xs]] show ?thesis
    by (simp add: set_remove_duplicates)
qed

lemma remove_duplicates_before:
  "takeWhile (\<lambda>y. y \<noteq> m) (remove_duplicates xs) = remove_duplicates (takeWhile (\<lambda>y. y \<noteq> m) xs)"
proof (cases "m \<in> set xs")
  case False
  then have a: "takeWhile (\<lambda>y. y \<noteq> m) xs = xs" by (auto simp: takeWhile_eq_all_conv)
  from False have b: "takeWhile (\<lambda>y. y \<noteq> m) (remove_duplicates xs) = remove_duplicates xs"
    by (auto simp: takeWhile_eq_all_conv set_remove_duplicates)
  show ?thesis by (simp only: a b)
next
  case True
  let ?step = "\<lambda>keys k. if k \<in> set keys then keys else keys @ [k]"
  let ?as = "takeWhile (\<lambda>y. y \<noteq> m) xs"
  let ?bs = "tl (dropWhile (\<lambda>y. y \<noteq> m) xs)"
  from True have ne: "dropWhile (\<lambda>y. y \<noteq> m) xs \<noteq> []"
    by (simp add: dropWhile_eq_Nil_conv)
  then have "hd (dropWhile (\<lambda>y. y \<noteq> m) xs) = m"
    using hd_dropWhile [of "\<lambda>y. y \<noteq> m" xs] by simp
  with ne have "dropWhile (\<lambda>y. y \<noteq> m) xs = m # ?bs"
    by (cases "dropWhile (\<lambda>y. y \<noteq> m) xs") simp_all
  then have xs: "xs = ?as @ m # ?bs"
    using takeWhile_dropWhile_id [of "\<lambda>y. y \<noteq> m" xs] by simp
  have notin: "m \<notin> set (foldl ?step [] ?as)"
    by (auto simp: fromkeys_step_set dest: set_takeWhileD)
  have "foldl ?step [] xs = foldl ?step (foldl ?step [] ?as) (m # ?bs)"
    by (subst xs) (simp only: foldl_append)
  also have "\<dots> = foldl ?step (foldl ?step [] ?as @ [m]) ?bs"
    using notin by simp
  finally obtain ys where "foldl ?step [] xs = (foldl ?step [] ?as @ [m]) @ ys"
    using fromkeys_step_prefix [of "foldl ?step [] ?as @ [m]" ?bs] by auto
  then have "takeWhile (\<lambda>y. y \<noteq> m) (foldl ?step [] xs) = foldl ?step [] ?as"
    using notin by (simp add: takeWhile_append)
  then show ?thesis
    by (simp add: remove_duplicates_def dict_fromkeys_def)
qed

text \<open>
  C2, as stated. \<^verbatim>\<open>extract_pdf_urls\<close> returns what \<^verbatim>\<open>findall\<close> finds: on a page with the
  same link three times it returns the link three times.
\<close>

theorem extract_pdf_urls_counterexample:
  "fst (extract_pdf_urls three_links) =
     [''https://churchdwight.com/pdf/?productID=40002569'',
      ''https://churchdwight.com/pdf/?productID=40002569'',
      ''https://churchdwight.com/pdf/?productID=40002569'']"
  by code_simp

text \<open>
  C2, amended. \<^verbatim>\<open>extract_pdf_urls\<close> returns every match in order, duplicates included;
  \<^verbatim>\<open>remove_duplicates\<close>, which \<^verbatim>\<open>main\<close> applies to that list, returns every matched link
  exactly once and in the order of first appearance: the links before \<open>m\<close> in the result
  are the deduplicated links before the first \<open>m\<close> in the list of matches. The page with
  the same link three times gives that link once.
\<close>

theorem remove_duplicates_first_seen:
  "fst (extract_pdf_urls html) = findall_from 0 html
   \<and> count_list (remove_duplicates (fst (extract_pdf_urls html))) m
       = (if m \<in> set (fst (extract_pdf_urls html)) then 1 else 0)
   \<and> takeWhile (\<lambda>y. y \<noteq> m) (remove_duplicates (fst (extract_pdf_urls html)))
       = remove_duplicates (takeWhile (\<lambda>y. y \<noteq> m) (fst (extract_pdf_urls html)))
   \<and> remove_duplicates (x # xs) = x # remove_duplicates (filter (\<lambda>y. y \<noteq> x) xs)
   \<and> remove_duplicates (fst (extract_pdf_urls three_links))
       = [''https://churchdwight.com/pdf/?productID=40002569'']"
proof -
  have "remove_duplicates (fst (extract_pdf_urls three_links))
       = [''https://churchdwight.com/pdf/?productID=40002569'']"
    by code_simp
  moreover have "fst (extract_pdf_urls html) = findall_from 0 html"
    by (simp add: extract_pdf_urls_def Let_def)
  ultimately show ?thesis
    using count_remove_duplicates remove_duplicates_before remove_duplicates_Cons by metis
qed

theorem remove_duplicates_first_seen_witness:
  "count_list (remove_duplicates (fst (extract_pdf_urls three_links)))
     ''https://churchdwight.com/pdf/?productID=40002569'' = 1"
proof -
  let ?l = "''https://churchdwight.com/pdf/?productID=40002569''"
  have m: "?l \<in> set (fst (extract_pdf_urls three_links))"
    by code_simp
  have "count_list (remove_duplicates (fst (extract_pdf_urls three_links))) ?l
       = (if ?l \<in> set (fst (extract_pdf_urls three_links)) then 1 else 0)"
    by (rule conjunct1 [OF conjunct2 [OF remove_duplicates_first_seen [of three_links ?l "''a''" "[]"]]])
  then show ?thesis using m by (simp only: if_True)
qed

section \<open>The redirect resolver\<close>

text \<open>The two calls before the \<^verbatim>\<open>try\<close> are not covered by the \<^verbatim>\<open>finally\<close> clause: when
  \<^verbatim>\<open>webdriver.Chrome\<close> raises no session exists, and when \<^verbatim>\<open>set_page_load_timeout\<close> raises
  the exception leaves the function with the session still alive.\<close>

lemma get_final_url_before_try:
  "chrome w u = StartFails \<Longrightarrow> get_final_url u w = (Inl WebDriverException, w)"
  "chrome w u = ConfigFails \<Longrightarrow>
     fst (get_final_url u w) = Inl WebDriverException
     \<and> sessions (snd (get_final_url u w)) = sessions w + 1"
  by (simp_all add: get_final_url_def emit_def)

text \<open>
  The paths through the \<^verbatim>\<open>try\<close>. Once the browser session is started and configured,
  every way out of \<^verbatim>\<open>get_final_url\<close> quits it: after a normal return, a navigation error
  or a timeout the last event is the quit of the session that was started and the number of
  live sessions is what it was. On a navigation error or timeout the function returns the
  empty string and does not raise.
\<close>

theorem get_final_url_teardown:
  "(chrome w u = Lands v \<longrightarrow>
      fst (get_final_url u w) = Inr v
      \<and> trace (snd (get_final_url u w)) = trace w @ [BrowserStart u, BrowserQuit u]
      \<and> sessions (snd (get_final_url u w)) = sessions w)
   \<and> (chrome w u \<in> {NavigationFails, NavigationTimesOut, ReadUrlFails} \<longrightarrow>
      fst (get_final_url u w) = Inr []
      \<and> trace (snd (get_final_url u w))
          = trace w @ [BrowserStart u, Print (SeleniumError u), BrowserQuit u]
      \<and> sessions (snd (get_final_url u w)) = sessions w)"
  by (auto simp: get_final_url_def driver_quit_def emit_def)

theorem get_final_url_teardown_witness:
  "fst (get_final_url ''https://churchdwight.com/pdf/?productID=1''
         ((a_world no_file unreachable)\<lparr>chrome := navigation_times_out\<rparr>)) = Inr []
   \<and> trace (snd (get_final_url ''https://churchdwight.com/pdf/?productID=1''
         ((a_world no_file unreachable)\<lparr>chrome := navigation_times_out\<rparr>)))
       = [BrowserStart ''https://churchdwight.com/pdf/?productID=1'',
          Print (SeleniumError ''https://churchdwight.com/pdf/?productID=1''),
          BrowserQuit ''https://churchdwight.com/pdf/?productID=1'']
   \<and> sessions (snd (get_final_url ''https://churchdwight.com/pdf/?productID=1''
         ((a_world no_file unreachable)\<lparr>chrome := navigation_times_out\<rparr>))) = 0
   \<and> fst (get_final_url ''https://churchdwight.com/pdf/?productID=1''
         (a_world no_file unreachable)) = Inr ''https://churchdwight.com/pdf/?productID=1''
   \<and> sessions (snd (get_final_url ''https://churchdwight.com/pdf/?productID=1''
         (a_world no_file unreachable))) = 0"
proof -
  let ?u = "''https://churchdwight.com/pdf/?productID=1''"
  let ?w = "(a_world no_file unreachable)\<lparr>chrome := navigation_times_out\<rparr>"
  let ?w2 = "a_world no_file unreachable"
  have c: "chrome ?w ?u \<in> {NavigationFails, NavigationTimesOut, ReadUrlFails}"
    by (simp add: navigation_times_out_def)
  have t: "trace ?w = []" "sessions ?w = 0" "trace ?w2 = []" "sessions ?w2 = 0"
    by (simp_all add: a_world_def)
  have c2: "chrome ?w2 ?u = Lands ?u"
    by (simp add: a_world_def)
  have 1: "fst (get_final_url ?u ?w) = Inr []
      \<and> trace (snd (get_final_url ?u ?w)) = [] @ [BrowserStart ?u, Print (SeleniumError ?u), BrowserQuit ?u]
      \<and> sessions (snd (get_final_url ?u ?w)) = 0"
    using mp [OF conjunct2 [OF get_final_url_teardown [of ?w ?u ?u]] c]
    by (simp only: t)
  have 2: "fst (get_final_url ?u ?w2) = Inr ?u
      \<and> trace (snd (get_final_url ?u ?w2)) = [] @ [BrowserStart ?u, BrowserQuit ?u]
      \<and> sessions (snd (get_final_url ?u ?w2)) = 0"
    using mp [OF conjunct1 [OF get_final_url_teardown [of ?w2 ?u ?u]] c2]
    by (simp only: t)
  from 1 2 show ?thesis by simp
qed

text \<open>
  C5. Not every exit path tears the session down. \<^verbatim>\<open>set_page_load_timeout\<close> is called
  after \<^verbatim>\<open>webdriver.Chrome\<close> and before the \<^verbatim>\<open>try\<close>: when it raises, the exception leaves
  \<^verbatim>\<open>get_final_url\<close> without \<^verbatim>\<open>driver.quit()\<close>, and the session that was started stays
  alive. In a world without live sessions the call ends with one, and its only event is the
  start of the browser.
\<close>

theorem get_final_url_leaks_session:
  "fst (get_final_url ''https://churchdwight.com/pdf/?productID=1''
         ((a_world no_file unreachable)\<lparr>chrome := config_fails\<rparr>)) = Inl WebDriverException
   \<and> sessions ((a_world no_file unreachable)\<lparr>chrome := config_fails\<rparr>) = 0
   \<and> sessions (snd (get_final_url ''https://churchdwight.com/pdf/?productID=1''
         ((a_world no_file unreachable)\<lparr>chrome := config_fails\<rparr>))) = 1
   \<and> trace (snd (get_final_url ''https://churchdwight.com/pdf/?productID=1''
         ((a_world no_file unreachable)\<lparr>chrome := config_fails\<rparr>)))
       = [BrowserStart ''https://churchdwight.com/pdf/?productID=1'']"
  by (simp add: get_final_url_def emit_def a_world_def config_fails_def)

section \<open>The downloader\<close>

lemma write_chunks_trace: "trace (write_chunks p cs w) = trace w @ map (WriteChunk p) cs"
  by (induction cs arbitrary: w) (simp_all add: write_chunk_def emit_def)

lemma write_chunks_exists:
  "file_exists w p \<Longrightarrow> file_exists (write_chunks p cs w) p"
  by (induction cs arbitrary: w) (simp_all add: write_chunk_def emit_def file_exists_def)

lemma count_list_append: "count_list (xs @ ys) x = count_list xs x + count_list ys x"
  by (induction xs) auto

lemma count_list_write_chunks: "count_list (map (WriteChunk p) cs) (OpenForWrite q) = 0"
  by (induction cs) auto

lemma download_pdf_raises:
  "url_to_filename bh u = Inl e \<Longrightarrow> download_pdf bh u d w = (Inl e, w)"
  by (simp add: download_pdf_def)

lemma download_pdf_run:
  assumes "download_pdf bh u d w = (r, w')"
  shows "\<exists>es. trace w' = trace w @ es \<and> count_list es (OpenForWrite p) \<le> 1
     \<and> (OpenForWrite p \<in> set es \<longrightarrow>
           (\<exists>f. url_to_filename bh u = Inr f \<and> p = (d, f)) \<and> file_exists w' p)
     \<and> (r = Inr True \<longrightarrow> (\<exists>f. url_to_filename bh u = Inr f \<and> OpenForWrite (d, f) \<in> set es))"
proof (cases "url_to_filename bh u")
  case (Inl e)
  with assms have "w' = w" "r = Inl e" by (simp_all add: download_pdf_def)
  then show ?thesis by simp
next
  case (Inr f)
  show ?thesis
  proof (cases "file_exists w (d, f)")
    case True
    with Inr assms have "w' = emit (Print (FileExistsSkipping (d, f))) w" "r = Inr False"
      by (simp_all add: download_pdf_def)
    then show ?thesis by (simp add: emit_def)
  next
    case False
    let ?w1 = "emit (HttpGet u) w"
    let ?fail = "emit (Print (FailedToDownload u)) ?w1"
    have "(\<exists>rep. w' = emit (Print rep) ?w1 \<and> r = Inr False)
        \<or> (\<exists>chunks broken.
          w' = emit (Print (if broken then FailedToDownload u else Downloaded u (d, f)))
                  (write_chunks (d, f) chunks (open_wb (d, f) ?w1))
          \<and> r = Inr (\<not> broken))"
      using assms Inr False
      by (auto simp: download_pdf_def Let_def split: http_outcome.splits if_splits option.splits)
    then consider (nofile) rep where "w' = emit (Print rep) ?w1 \<and> r = Inr False"
      | (written) chunks broken where
          "w' = emit (Print (if broken then FailedToDownload u else Downloaded u (d, f)))
                  (write_chunks (d, f) chunks (open_wb (d, f) ?w1))
          \<and> r = Inr (\<not> broken)"
      by blast
    then show ?thesis
    proof cases
      case nofile
      then show ?thesis by (simp add: emit_def)
    next
      case written
      have ex: "file_exists (open_wb (d, f) ?w1) (d, f)"
        by (simp add: open_wb_def emit_def file_exists_def)
      have fe: "file_exists w' (d, f)"
        using write_chunks_exists [OF ex, of chunks] written
        by (simp add: emit_def file_exists_def)
      have tr: "trace w' = trace w @ ([HttpGet u, OpenForWrite (d, f)] @ map (WriteChunk (d, f)) chunks
          @ [Print (if broken then FailedToDownload u else Downloaded u (d, f))])"
        using written by (simp add: emit_def write_chunks_trace open_wb_def)
      show ?thesis
        using tr fe Inr written
        by (intro exI [of _ "[HttpGet u, OpenForWrite (d, f)] @ map (WriteChunk (d, f)) chunks
          @ [Print (if broken then FailedToDownload u else Downloaded u (d, f))]"])
          (auto simp: count_list_append count_list_write_chunks)
    qed
  qed
qed


text \<open>
  C1. When the file named after the URL already exists in the output directory,
  \<^verbatim>\<open>download_pdf\<close> only prints the skip and returns False: no GET is issued and no file is
  touched. Hence two runs in a row on the same URL and directory, whatever the network
  answers in each, open the file for writing at most once; and when the first run has
  written the file (in particular when it returned True), the second run is exactly the
  skip.
\<close>

theorem download_pdf_idempotent:
  "(url_to_filename bh u = Inr f \<and> file_exists w (d, f) \<longrightarrow>
      download_pdf bh u d w = (Inr False, emit (Print (FileExistsSkipping (d, f))) w)
      \<and> files (snd (download_pdf bh u d w)) = files w
      \<and> trace (snd (download_pdf bh u d w)) = trace w @ [Print (FileExistsSkipping (d, f))])
   \<and> (download_pdf bh u d w = (r1, w1)
       \<and> download_pdf bh u d (w1\<lparr>http := net2, open_denied := den2\<rparr>) = (r2, w2) \<longrightarrow>
      (\<exists>es1 es2. trace w1 = trace w @ es1 \<and> trace w2 = trace w1 @ es2
         \<and> count_list (es1 @ es2) (OpenForWrite p) \<le> 1
         \<and> (OpenForWrite p \<in> set es1 \<longrightarrow>
               r2 = Inr False \<and> es2 = [Print (FileExistsSkipping p)] \<and> files w2 = files w1)
         \<and> (r1 = Inr True \<longrightarrow>
               (\<exists>g. url_to_filename bh u = Inr g \<and> OpenForWrite (d, g) \<in> set es1))))"
proof -
  have 1: "download_pdf bh u d w = (Inr False, emit (Print (FileExistsSkipping (d, f))) w)
      \<and> files (snd (download_pdf bh u d w)) = files w
      \<and> trace (snd (download_pdf bh u d w)) = trace w @ [Print (FileExistsSkipping (d, f))]"
    if "url_to_filename bh u = Inr f" "file_exists w (d, f)"
    using download_pdf_skip [OF that] by (simp add: emit_def)
  have 2: "\<exists>es1 es2. trace w1 = trace w @ es1 \<and> trace w2 = trace w1 @ es2
         \<and> count_list (es1 @ es2) (OpenForWrite p) \<le> 1
         \<and> (OpenForWrite p \<in> set es1 \<longrightarrow>
               r2 = Inr False \<and> es2 = [Print (FileExistsSkipping p)] \<and> files w2 = files w1)
         \<and> (r1 = Inr True \<longrightarrow>
               (\<exists>g. url_to_filename bh u = Inr g \<and> OpenForWrite (d, g) \<in> set es1))"
    if run1: "download_pdf bh u d w = (r1, w1)"
      and run2: "download_pdf bh u d (w1\<lparr>http := net2, open_denied := den2\<rparr>) = (r2, w2)"
  proof -
    let ?w1 = "w1\<lparr>http := net2, open_denied := den2\<rparr>"
    from download_pdf_run [OF run1, of p] obtain es1 where
      e1: "trace w1 = trace w @ es1" "count_list es1 (OpenForWrite p) \<le> 1"
        "OpenForWrite p \<in> set es1 \<longrightarrow>
           (\<exists>f. url_to_filename bh u = Inr f \<and> p = (d, f)) \<and> file_exists w1 p"
        "r1 = Inr True \<longrightarrow> (\<exists>f. url_to_filename bh u = Inr f \<and> OpenForWrite (d, f) \<in> set es1)"
      by blast
    from download_pdf_run [OF run2, of p] obtain es2 where
      e2: "trace w2 = trace ?w1 @ es2" "count_list es2 (OpenForWrite p) \<le> 1"
      by blast
    have t2: "trace w2 = trace w1 @ es2" using e2(1) by simp
    show ?thesis
    proof (cases "OpenForWrite p \<in> set es1")
      case False
      then have "count_list es1 (OpenForWrite p) = 0" by (simp add: count_list_0_iff)
      with e1 e2(2) t2 False show ?thesis
        by (intro exI [of _ es1] exI [of _ es2]) (simp add: count_list_append)
    next
      case True
      with e1(3) obtain g where g: "url_to_filename bh u = Inr g" "p = (d, g)" "file_exists w1 p"
        by blast
      then have "file_exists ?w1 (d, g)" by (simp add: file_exists_def)
      from download_pdf_skip [OF g(1) this] run2
      have s: "r2 = Inr False" "w2 = emit (Print (FileExistsSkipping (d, g))) ?w1" by simp_all
      then have es2: "es2 = [Print (FileExistsSkipping p)]" "files w2 = files w1"
        using t2 g(2) by (simp_all add: emit_def)
      with e1 t2 s(1) show ?thesis
        by (intro exI [of _ es1] exI [of _ es2]) (simp add: count_list_append)
    qed
  qed
  from 1 2 show ?thesis by blast
qed

theorem download_pdf_idempotent_witness:
  "fst (download_pdf any_host ''https://example.com/files/Sheet.pdf'' ''PDFs''
         (a_world no_file (serve 200 ''application/pdf''))) = Inr True
   \<and> fst (download_pdf any_host ''https://example.com/files/Sheet.pdf'' ''PDFs''
         ((snd (download_pdf any_host ''https://example.com/files/Sheet.pdf'' ''PDFs''
                 (a_world no_file (serve 200 ''application/pdf''))))
          \<lparr>http := unreachable, open_denied := never\<rparr>)) = Inr False
   \<and> files (snd (download_pdf any_host ''https://example.com/files/Sheet.pdf'' ''PDFs''
         ((snd (download_pdf any_host ''https://example.com/files/Sheet.pdf'' ''PDFs''
                 (a_world no_file (serve 200 ''application/pdf''))))
          \<lparr>http := unreachable, open_denied := never\<rparr>)))
       = files (snd (download_pdf any_host ''https://example.com/files/Sheet.pdf'' ''PDFs''
                 (a_world no_file (serve 200 ''application/pdf''))))"
proof -
  let ?u = "''https://example.com/files/Sheet.pdf''"
  let ?w = "a_world no_file (serve 200 ''application/pdf'')"
  let ?r1 = "fst (download_pdf any_host ?u ''PDFs'' ?w)"
  let ?w1 = "snd (download_pdf any_host ?u ''PDFs'' ?w)"
  let ?r2 = "fst (download_pdf any_host ?u ''PDFs'' (?w1\<lparr>http := unreachable, open_denied := never\<rparr>))"
  let ?w2 = "snd (download_pdf any_host ?u ''PDFs'' (?w1\<lparr>http := unreachable, open_denied := never\<rparr>))"
  have f: "url_to_filename any_host ?u = Inr ''sheet.pdf''" by code_simp
  have ok: "?r1 = Inr True" by code_simp
  have runs: "download_pdf any_host ?u ''PDFs'' ?w = (?r1, ?w1)
      \<and> download_pdf any_host ?u ''PDFs'' (?w1\<lparr>http := unreachable, open_denied := never\<rparr>) = (?r2, ?w2)"
    by simp
  from download_pdf_idempotent [where bh = any_host and u = ?u and d = "''PDFs''" and w = ?w
      and ?r1.0 = ?r1 and ?w1.0 = ?w1 and ?r2.0 = ?r2 and ?w2.0 = ?w2 and ?net2.0 = unreachable
      and ?den2.0 = never and p = "(''PDFs'', ''sheet.pdf'')"] runs
  obtain es1 es2 where
    a: "OpenForWrite (''PDFs'', ''sheet.pdf'') \<in> set es1 \<longrightarrow>
         ?r2 = Inr False \<and> es2 = [Print (FileExistsSkipping (''PDFs'', ''sheet.pdf''))] \<and> files ?w2 = files ?w1"
    and b: "?r1 = Inr True \<longrightarrow>
         (\<exists>g. url_to_filename any_host ?u = Inr g \<and> OpenForWrite (''PDFs'', g) \<in> set es1)"
    by blast
  from b ok f have "OpenForWrite (''PDFs'', ''sheet.pdf'') \<in> set es1" by simp
  with a ok show ?thesis by simp
qed

section \<open>What the downloader lets through\<close>

lemma download_pdf_rejects:
  assumes "http w u = RequestFails
      \<or> (\<exists>st ct chunks broken. http w u = Response st ct chunks broken \<and>
           (raise_for_status st
            \<or> \<not> (contains (case ct of None \<Rightarrow> [] | Some v \<Rightarrow> v) ''application/pdf''
                   \<or> contains (case ct of None \<Rightarrow> [] | Some v \<Rightarrow> v) ''text/html'')))"
    and "url_to_filename bh u = Inr f" and "\<not> file_exists w (d, f)"
  shows "fst (download_pdf bh u d w) = Inr False
     \<and> files (snd (download_pdf bh u d w)) = files w
     \<and> (\<exists>rep. trace (snd (download_pdf bh u d w)) = trace w @ [HttpGet u, Print rep])"
  using assms
  by (auto simp: download_pdf_def Let_def emit_def split: http_outcome.splits option.splits)

text \<open>
  C4. The claim holds for the responses with status 400 to 599, for which
  \<^verbatim>\<open>raise_for_status\<close> raises, and for the content types (lemma \<open>download_pdf_rejects\<close>).
  It fails for the other statuses outside 200 to 299 that the library hands back: a
  response \<^verbatim>\<open>304 Not Modified\<close> with content type \<^verbatim>\<open>text/html\<close> is written to disk and
  \<^verbatim>\<open>download_pdf\<close> returns True.
\<close>

theorem download_pdf_writes_on_304:
  "fst (download_pdf any_host ''https://example.com/files/sheet.pdf'' ''PDFs''
         (a_world no_file (serve 304 ''text/html''))) = Inr True
   \<and> file_exists (snd (download_pdf any_host ''https://example.com/files/sheet.pdf'' ''PDFs''
         (a_world no_file (serve 304 ''text/html'')))) (''PDFs'', ''sheet.pdf'')
   \<and> \<not> file_exists (a_world no_file (serve 304 ''text/html'')) (''PDFs'', ''sheet.pdf'')"
  by code_simp

section \<open>The orchestrator\<close>







lemma get_final_url_error:
  "fst (get_final_url u w) = Inl e \<Longrightarrow> e = WebDriverException \<and> chrome w u \<in> {StartFails, ConfigFails}"
  by (auto simp: get_final_url_def Let_def split: browser_outcome.splits)












end
